theory Spec2Isabelle
  imports Complex_Main "HOL-Library.Sublist"
begin

section \<open>Python values, objects and errors\<close>

text \<open>
  The property values handled by \<^verbatim>\<open>calibre/ebooks/docx/tables.py\<close>: the
  \<^verbatim>\<open>inherit\<close> sentinel imported from \<^verbatim>\<open>block_styles\<close>, \<^verbatim>\<open>None\<close>, strings,
  (unbounded) integers, tuples and dictionaries.  The test \<^verbatim>\<open>x is inherit\<close> is a
  test for the constructor \<open>Inherit\<close>: the sentinel is a single object.
\<close>

datatype pyval =
    Inherit
  | PyNone
  | PyStr string
  | PyInt int
  | PyTuple "pyval list"
  | PyDict "(string \<times> pyval) list"

datatype pyerror =
  TypeError | ValueError | AttributeError | KeyError | OverflowError | ZeroDivisionError

text \<open>
  An instance is its attribute dictionary.  \<^verbatim>\<open>setattr\<close> always succeeds,
  \<^verbatim>\<open>getattr\<close> raises \<^verbatim>\<open>AttributeError\<close> on a missing attribute.
\<close>

type_synonym pyobj = "string \<rightharpoonup> pyval"

definition setattr :: "pyobj \<Rightarrow> string \<Rightarrow> pyval \<Rightarrow> pyobj" where
  "setattr obj name v = obj(name \<mapsto> v)"

definition getattr :: "pyobj \<Rightarrow> string \<Rightarrow> pyerror + pyval" where
  "getattr obj name = (case obj name of None \<Rightarrow> Inl AttributeError | Some v \<Rightarrow> Inr v)"

section \<open>Property lists\<close>

definition border_edges :: "string list" where
  "border_edges = [''left'', ''top'', ''right'', ''bottom'', ''insideH'', ''insideV'']"

text \<open>
  \<^verbatim>\<open>border_props\<close> is imported from \<^verbatim>\<open>block_styles\<close>; it is a tuple of
  templates with one \<^verbatim>\<open>%s\<close> each.  It is a parameter here: a template is the pair
  of the text before and after its \<^verbatim>\<open>%s\<close>, and \<^verbatim>\<open>k % edge\<close> puts the edge
  between the two.
\<close>

type_synonym template = "string \<times> string"

definition percent :: "template \<Rightarrow> string \<Rightarrow> string" where
  "percent k edge = fst k @ edge @ snd k"

definition border_properties :: "template list \<Rightarrow> string list" where
  "border_properties border_props =
     concat (map (\<lambda>edge. map (\<lambda>k. percent k edge) border_props) border_edges)"

definition RowStyle_all_properties :: "string list" where
  "RowStyle_all_properties = [''height'', ''cantSplit'', ''hidden'', ''spacing'']"

definition TableStyle_all_properties :: "template list \<Rightarrow> string list" where
  "TableStyle_all_properties border_props =
     [''width'', ''cell_padding_left'', ''cell_padding_right'', ''cell_padding_top'',
      ''cell_padding_bottom'', ''margin_left'', ''margin_right'', ''background_color'',
      ''spacing'', ''indent'', ''overrides'', ''col_band_size'', ''row_band_size'', ''look'']
     @ border_properties border_props"

section \<open>The cascade: \<^verbatim>\<open>TableStyle.update\<close> and \<^verbatim>\<open>TableStyle.resolve_based_on\<close>\<close>

text \<open>The loop of \<^verbatim>\<open>update\<close> over the property list.\<close>

fun update_loop :: "string list \<Rightarrow> pyobj \<Rightarrow> pyobj \<Rightarrow> pyerror + pyobj" where
  "update_loop [] self other = Inr self"
| "update_loop (prop # props) self other =
     (case getattr other prop of
        Inl e \<Rightarrow> Inl e
      | Inr nval \<Rightarrow>
          if nval \<noteq> Inherit then update_loop props (setattr self prop nval) other
          else update_loop props self other)"

definition TableStyle_update :: "template list \<Rightarrow> pyobj \<Rightarrow> pyobj \<Rightarrow> pyerror + pyobj" where
  "TableStyle_update border_props self other =
     update_loop (TableStyle_all_properties border_props) self other"

text \<open>The loop of \<^verbatim>\<open>resolve_based_on\<close>; the parent is read only for a property
  that is still inherited.\<close>

fun resolve_loop :: "string list \<Rightarrow> pyobj \<Rightarrow> pyobj \<Rightarrow> pyerror + pyobj" where
  "resolve_loop [] self parent = Inr self"
| "resolve_loop (p # ps) self parent =
     (case getattr self p of
        Inl e \<Rightarrow> Inl e
      | Inr val \<Rightarrow>
          if val = Inherit then
            (case getattr parent p of
               Inl e \<Rightarrow> Inl e
             | Inr pv \<Rightarrow> resolve_loop ps (setattr self p pv) parent)
          else resolve_loop ps self parent)"

definition TableStyle_resolve_based_on ::
    "template list \<Rightarrow> pyobj \<Rightarrow> pyobj \<Rightarrow> pyerror + pyobj" where
  "TableStyle_resolve_based_on border_props self parent =
     resolve_loop (TableStyle_all_properties border_props) self parent"

text \<open>An instance that carries every property of the list, as every constructed
  \<^verbatim>\<open>TableStyle\<close> does.\<close>

definition has_properties :: "string list \<Rightarrow> pyobj \<Rightarrow> bool" where
  "has_properties props obj = list_all (\<lambda>p. obj p \<noteq> None) props"

definition fully_resolved :: "string list \<Rightarrow> pyobj \<Rightarrow> bool" where
  "fully_resolved props obj = list_all (\<lambda>p. obj p \<noteq> None \<and> obj p \<noteq> Some Inherit) props"

section \<open>Source XML nodes and the query helpers\<close>

text \<open>
  An element of the parsed document: its identity (elements are compared and hashed by
  identity, the number stands for the object), its tag in Clark notation
  (\<^verbatim>\<open>{namespace}local\<close>), its attributes and its element children in document
  order.
\<close>

datatype xml = Element (ident: nat) (tag: string) (attrib: "(string \<times> string) list")
  (children: "xml list")

definition w_namespace :: string where
  "w_namespace = ''http://schemas.openxmlformats.org/wordprocessingml/2006/main''"

text \<open>
  Modelled from the spec: the helpers \<^verbatim>\<open>XPath\<close>, \<^verbatim>\<open>get\<close> and \<^verbatim>\<open>is_tag\<close>
  come from \<^verbatim>\<open>calibre.ebooks.docx.names\<close>, which is not among the sources; the spec
  takes them as the given capability to select children by qualified name and to look an
  attribute up by qualified name.  \<open>expand\<close> turns the prefixed name the source writes
  (\<^verbatim>\<open>w:tblW\<close>) into the Clark name stored in the tree.
\<close>

definition expand :: "string \<Rightarrow> string" where
  "expand name =
     (if take 2 name = ''w:'' then ''{'' @ w_namespace @ ''}'' @ drop 2 name else name)"

text \<open>\<^verbatim>\<open>XPath('./NAME')(parent)\<close>: the children with that name, in document order.\<close>

definition XPath_children :: "string \<Rightarrow> xml \<Rightarrow> xml list" where
  "XPath_children name parent = filter (\<lambda>c. tag c = expand name) (children parent)"

text \<open>\<^verbatim>\<open>get(elem, NAME)\<close> is \<open>None\<close> for a missing attribute;
  \<^verbatim>\<open>get(elem, NAME, default)\<close> is the default then.\<close>

definition get :: "xml \<Rightarrow> string \<Rightarrow> string option" where
  "get elem name = map_of (attrib elem) (expand name)"

definition get_default :: "xml \<Rightarrow> string \<Rightarrow> string \<Rightarrow> string" where
  "get_default elem name dflt = (case get elem name of None \<Rightarrow> dflt | Some v \<Rightarrow> v)"

text \<open>\<^verbatim>\<open>XPath('./NAME[@ATTR]')(parent)\<close>: the children with that name that carry the
  attribute.\<close>

definition XPath_children_with :: "string \<Rightarrow> string \<Rightarrow> xml \<Rightarrow> xml list" where
  "XPath_children_with name attr parent =
     filter (\<lambda>c. get c attr \<noteq> None) (XPath_children name parent)"

section \<open>Python's \<^verbatim>\<open>int(string)\<close> and \<^verbatim>\<open>int(string, 16)\<close>\<close>

text \<open>
  The builtin on text whose characters are the code points below 256 (a \<open>char\<close> stands
  for the code point of its number): white space around the literal is skipped, one
  sign is accepted (Python 2 also skips white space after it), base 16 accepts a
  \<^verbatim>\<open>0x\<close> prefix, and at least one digit of the base must remain and nothing else.
  White space is what \<^verbatim>\<open>int\<close> takes for it on the text \<^verbatim>\<open>lxml\<close> returns: the
  characters 9 to 13, 28 to 31, the space, and the two beyond ASCII, U+0085 and the
  no-break space U+00A0.  The only decimal digits below 256 are \<^verbatim>\<open>0\<close> to \<^verbatim>\<open>9\<close>.
  \<^verbatim>\<open>None\<close> raises \<^verbatim>\<open>TypeError\<close>, any other text \<^verbatim>\<open>ValueError\<close>.  The result
  is unbounded.
\<close>

definition py_isspace :: "char \<Rightarrow> bool" where
  "py_isspace c =
     (c \<in> set [CHR 0x09, CHR 0x0A, CHR 0x0B, CHR 0x0C, CHR 0x0D,
                CHR 0x1C, CHR 0x1D, CHR 0x1E, CHR 0x1F, CHR 0x20, CHR 0x85, CHR 0xA0])"

definition lstrip :: "string \<Rightarrow> string" where
  "lstrip s = dropWhile py_isspace s"

definition rstrip :: "string \<Rightarrow> string" where
  "rstrip s = rev (dropWhile py_isspace (rev s))"

definition digit_value :: "char \<Rightarrow> nat option" where
  "digit_value c =
     (let n = (of_char c :: nat) in
      if 48 \<le> n \<and> n \<le> 57 then Some (n - 48)
      else if 97 \<le> n \<and> n \<le> 122 then Some (n - 87)
      else if 65 \<le> n \<and> n \<le> 90 then Some (n - 55)
      else None)"

fun digits_value :: "nat \<Rightarrow> nat \<Rightarrow> string \<Rightarrow> nat option" where
  "digits_value base acc [] = Some acc"
| "digits_value base acc (c # cs) =
     (case digit_value c of
        None \<Rightarrow> None
      | Some d \<Rightarrow> if d < base then digits_value base (acc * base + d) cs else None)"

definition split_sign :: "string \<Rightarrow> bool \<times> string" where
  "split_sign s =
     (case s of
        [] \<Rightarrow> (False, s)
      | c # r \<Rightarrow> if c = CHR ''-'' then (True, r) else if c = CHR ''+'' then (False, r)
                 else (False, s))"

definition strip_0x :: "nat \<Rightarrow> string \<Rightarrow> string" where
  "strip_0x base s =
     (if base = 16 \<and> (take 2 s = ''0x'' \<or> take 2 s = ''0X'') then drop 2 s else s)"

definition py_int :: "nat \<Rightarrow> string option \<Rightarrow> pyerror + int" where
  "py_int base x =
     (case x of
        None \<Rightarrow> Inl TypeError
      | Some s \<Rightarrow>
          (let (neg, u) = split_sign (lstrip s);
               body = rstrip (strip_0x base (lstrip u))
           in if body = [] then Inl ValueError
              else case digits_value base 0 body of
                     None \<Rightarrow> Inl ValueError
                   | Some n \<Rightarrow> Inr (if neg then - int n else int n)))"

section \<open>Readers with integer values\<close>

text \<open>
  \<^verbatim>\<open>read_col_span\<close>, \<^verbatim>\<open>read_band_size\<close> and \<^verbatim>\<open>read_look\<close>: each loop keeps
  the last value that parses; the \<^verbatim>\<open>except (TypeError, ValueError): continue\<close> lets
  any other exception through.
\<close>

fun col_span_loop :: "xml list \<Rightarrow> pyval \<Rightarrow> pyerror + pyval" where
  "col_span_loop [] ans = Inr ans"
| "col_span_loop (gs # rest) ans =
     (case py_int 10 (get gs ''w:val'') of
        Inr n \<Rightarrow> col_span_loop rest (PyInt n)
      | Inl e \<Rightarrow> if e = TypeError \<or> e = ValueError then col_span_loop rest ans else Inl e)"

definition read_col_span :: "xml \<Rightarrow> pyobj \<Rightarrow> pyerror + pyobj" where
  "read_col_span parent dest =
     (case col_span_loop (XPath_children ''w:gridSpan'' parent) Inherit of
        Inl e \<Rightarrow> Inl e
      | Inr ans \<Rightarrow> Inr (setattr dest ''col_span'' ans))"

fun band_size_loop :: "xml list \<Rightarrow> pyval \<Rightarrow> pyerror + pyval" where
  "band_size_loop [] ans = Inr ans"
| "band_size_loop (y # rest) ans =
     (case py_int 10 (get y ''w:val'') of
        Inr n \<Rightarrow> band_size_loop rest (PyInt n)
      | Inl e \<Rightarrow> if e = TypeError \<or> e = ValueError then band_size_loop rest ans else Inl e)"

text \<open>The body of the outer loop of \<^verbatim>\<open>read_band_size\<close> for one \<open>x\<close>, given with its
  lower-case form.\<close>

definition read_band_size_for :: "string \<Rightarrow> string \<Rightarrow> xml \<Rightarrow> pyobj \<Rightarrow> pyerror + pyobj" where
  "read_band_size_for x x_lower parent dest =
     (case band_size_loop (XPath_children (''w:tblStyle'' @ x @ ''BandSize'') parent) (PyInt 1) of
        Inl e \<Rightarrow> Inl e
      | Inr ans \<Rightarrow> Inr (setattr dest (x_lower @ ''_band_size'') ans))"

definition read_band_size :: "xml \<Rightarrow> pyobj \<Rightarrow> pyerror + pyobj" where
  "read_band_size parent dest =
     (case read_band_size_for ''Col'' ''col'' parent dest of
        Inl e \<Rightarrow> Inl e
      | Inr dest' \<Rightarrow> read_band_size_for ''Row'' ''row'' parent dest')"

fun look_loop :: "xml list \<Rightarrow> pyval \<Rightarrow> pyerror + pyval" where
  "look_loop [] ans = Inr ans"
| "look_loop (x # rest) ans =
     (case py_int 16 (get x ''w:val'') of
        Inr n \<Rightarrow> look_loop rest (PyInt n)
      | Inl e \<Rightarrow> if e = ValueError \<or> e = TypeError then look_loop rest ans else Inl e)"

definition read_look :: "xml \<Rightarrow> pyobj \<Rightarrow> pyerror + pyobj" where
  "read_look parent dest =
     (case look_loop (XPath_children ''w:tblLook'' parent) (PyInt 0) of
        Inl e \<Rightarrow> Inl e
      | Inr ans \<Rightarrow> Inr (setattr dest ''look'' ans))"

section \<open>\<^verbatim>\<open>read_justification\<close>\<close>

text \<open>The loop over the \<^verbatim>\<open>w:jc\<close> children that carry \<^verbatim>\<open>w:val\<close>; the state is the
  pair of the local variables \<open>left\<close> and \<open>right\<close>.\<close>

fun justification_loop :: "xml list \<Rightarrow> pyval \<times> pyval \<Rightarrow> pyval \<times> pyval" where
  "justification_loop [] lr = lr"
| "justification_loop (jc # rest) (left, right) =
     (case get jc ''w:val'' of
        None \<Rightarrow> justification_loop rest (left, right)
      | Some val \<Rightarrow>
          if val = [] then justification_loop rest (left, right)
          else if val = ''left'' then justification_loop rest (left, PyStr ''auto'')
          else if val = ''right'' then justification_loop rest (PyStr ''auto'', right)
          else if val = ''center'' then justification_loop rest (PyStr ''auto'', PyStr ''auto'')
          else justification_loop rest (left, right))"

definition read_justification :: "xml \<Rightarrow> pyobj \<Rightarrow> pyobj" where
  "read_justification parent dest =
     (let (left, right) =
            justification_loop (XPath_children_with ''w:jc'' ''w:val'' parent) (Inherit, Inherit)
      in setattr (setattr dest ''margin_left'' left) ''margin_right'' right)"

section \<open>\<^verbatim>\<open>RowStyle\<close>\<close>

text \<open>
  The constructor starts from an instance without attributes.  Without a node it sets
  every property of \<^verbatim>\<open>all_properties\<close> to the sentinel; with a node its body is
  \<^verbatim>\<open>pass\<close>.  (The tuple \<^verbatim>\<open>all_properties\<close> itself is an attribute of the class,
  not of the instance.)
\<close>

definition RowStyle_init :: "xml option \<Rightarrow> pyobj" where
  "RowStyle_init tcPr =
     (case tcPr of
        None \<Rightarrow> fold (\<lambda>p self. setattr self p Inherit) RowStyle_all_properties Map.empty
      | Some node \<Rightarrow> Map.empty)"

text \<open>The values of the \<^verbatim>\<open>w:val\<close> attributes of the \<^verbatim>\<open>w:jc\<close> children, in
  document order: the justification values present under a property container.\<close>

definition justification_values :: "xml \<Rightarrow> string list" where
  "justification_values parent =
     List.map_filter (\<lambda>jc. get jc ''w:val'') (XPath_children ''w:jc'' parent)"

text \<open>A text that \<^verbatim>\<open>int\<close> rejects in the given base.\<close>

definition malformed :: "nat \<Rightarrow> string option \<Rightarrow> bool" where
  "malformed base x = isl (py_int base x)"

section \<open>The registration state: \<^verbatim>\<open>Tables\<close>\<close>

text \<open>
  \<^verbatim>\<open>OrderedDict.__setitem__\<close>: a key that is present keeps its place and gets the new
  value, a new key goes to the end.
\<close>

fun od_setitem :: "('k \<times> 'v) list \<Rightarrow> 'k \<Rightarrow> 'v \<Rightarrow> ('k \<times> 'v) list" where
  "od_setitem [] k v = [(k, v)]"
| "od_setitem ((k', v') # rest) k v =
     (if k' = k then (k', v) # rest else (k', v') # od_setitem rest k v)"

text \<open>
  The block lists are Python list objects shared between the dictionary and the cursor
  \<^verbatim>\<open>current_table\<close>, so they live in a store of list objects: \<open>lists\<close> maps an
  address to the content of the list there, \<open>next_list\<close> is the next unused address,
  \<open>tables\<close> maps a table node to the address of its list, and \<open>current_table\<close> is
  the address the attribute refers to (the attribute does not exist before the first
  \<^verbatim>\<open>register\<close>).
\<close>

record ('k, 'b) Tables =
  lists :: "nat \<Rightarrow> 'b list"
  next_list :: nat
  tables :: "('k \<times> nat) list"
  current_table :: "nat option"

definition Tables_init :: "('k, 'b) Tables" where
  "Tables_init = \<lparr>lists = (\<lambda>a. []), next_list = 0, tables = [], current_table = None\<rparr>"

text \<open>\<^verbatim>\<open>self.tables[tbl] = self.current_table = []\<close>: one new list, stored under
  \<open>tbl\<close> and in the cursor.\<close>

definition register :: "('k, 'b) Tables \<Rightarrow> 'k \<Rightarrow> ('k, 'b) Tables" where
  "register self tbl =
     (let a = next_list self in
      self\<lparr>lists := (lists self)(a := []),
           next_list := Suc a,
           tables := od_setitem (tables self) tbl a,
           current_table := Some a\<rparr>)"

definition add :: "('k, 'b) Tables \<Rightarrow> 'b \<Rightarrow> pyerror + ('k, 'b) Tables" where
  "add self p =
     (case current_table self of
        None \<Rightarrow> Inl AttributeError
      | Some a \<Rightarrow> Inr (self\<lparr>lists := (lists self)(a := lists self a @ [p])\<rparr>))"

text \<open>\<^verbatim>\<open>self.tables.iteritems()\<close>: the nodes with the content of their lists, in the
  order of the dictionary.\<close>

definition iteritems :: "('k, 'b) Tables \<Rightarrow> ('k \<times> 'b list) list" where
  "iteritems self = map (\<lambda>(tbl, a). (tbl, lists self a)) (tables self)"

text \<open>A sequence of calls on a \<^verbatim>\<open>Tables\<close> instance.\<close>

datatype ('k, 'b) tables_call = Register 'k | Add 'b

fun do_call :: "('k, 'b) Tables \<Rightarrow> ('k, 'b) tables_call \<Rightarrow> pyerror + ('k, 'b) Tables" where
  "do_call self (Register tbl) = Inr (register self tbl)"
| "do_call self (Add p) = add self p"

fun do_calls :: "('k, 'b) Tables \<Rightarrow> ('k, 'b) tables_call list \<Rightarrow> pyerror + ('k, 'b) Tables" where
  "do_calls self [] = Inr self"
| "do_calls self (c # cs) = (case do_call self c of Inl e \<Rightarrow> Inl e | Inr self' \<Rightarrow> do_calls self' cs)"

text \<open>The node of the last \<^verbatim>\<open>register\<close> call of a sequence.\<close>

fun last_registered :: "('k, 'b) tables_call list \<Rightarrow> 'k option" where
  "last_registered [] = None"
| "last_registered (c # cs) =
     (case last_registered cs of
        Some tbl \<Rightarrow> Some tbl
      | None \<Rightarrow> (case c of Register tbl \<Rightarrow> Some tbl | Add p \<Rightarrow> None))"

text \<open>A sequence in which no \<^verbatim>\<open>add\<close> comes before the first \<^verbatim>\<open>register\<close>.\<close>

definition add_after_register :: "('k, 'b) tables_call list \<Rightarrow> bool" where
  "add_after_register cs = (case cs of Add p # rest \<Rightarrow> False | _ \<Rightarrow> True)"

section \<open>True division and \<^verbatim>\<open>%.3g\<close>\<close>

text \<open>
  The module has \<^verbatim>\<open>from __future__ import division\<close>, so \<^verbatim>\<open>w/20\<close> is the float
  nearest to the quotient (an IEEE double, ties to even), and \<^verbatim>\<open>OverflowError\<close> when
  that is beyond the largest double.  A float is kept as the exact fraction it
  stands for: a sign, a numerator and a positive denominator.
\<close>

record pyfloat =
  negative :: bool
  numer :: nat
  denom :: nat

text \<open>The number of digits of \<open>n\<close> in base \<open>b\<close> (none for 0).\<close>

function ndigits :: "nat \<Rightarrow> nat \<Rightarrow> nat" where
  "ndigits b n = (if n = 0 \<or> b < 2 then 0 else Suc (ndigits b (n div b)))"
  by pat_completeness auto
termination
  by (relation "measure snd") auto

declare ndigits.simps [simp del]

text \<open>The fraction \<open>n/d\<close> times \<open>b\<close> to the power \<open>k\<close>, for any integer \<open>k\<close>.\<close>

definition scale :: "nat \<Rightarrow> int \<Rightarrow> nat \<times> nat \<Rightarrow> nat \<times> nat" where
  "scale b k x =
     (if 0 \<le> k then (fst x * b ^ nat k, snd x) else (fst x, snd x * b ^ nat (- k)))"

text \<open>The largest \<open>k\<close> with \<open>b\<close> to the \<open>k\<close> at most \<open>n/d\<close>, for positive \<open>n\<close>
  and \<open>d\<close>: the difference \<open>c\<close> of the digit counts, or one less.\<close>

definition floor_log_near :: "nat \<Rightarrow> nat \<times> nat \<Rightarrow> int \<Rightarrow> int" where
  "floor_log_near b x c = (if snd (scale b (- c) x) \<le> fst (scale b (- c) x) then c else c - 1)"

definition floor_log :: "nat \<Rightarrow> nat \<times> nat \<Rightarrow> int" where
  "floor_log b x = floor_log_near b x (int (ndigits b (fst x)) - int (ndigits b (snd x)))"

definition round_half_even :: "nat \<times> nat \<Rightarrow> nat" where
  "round_half_even x =
     (if 2 * (fst x mod snd x) < snd x then fst x div snd x
      else if snd x < 2 * (fst x mod snd x) then fst x div snd x + 1
      else if even (fst x div snd x) then fst x div snd x
      else fst x div snd x + 1)"

text \<open>
  \<^verbatim>\<open>a / b\<close> on integers: the quotient is rounded to 53 significant bits (to a
  multiple of \<open>2\<close> to the \<open>-1074\<close> where it is subnormal); a result of \<open>2\<close> to the
  \<open>1024\<close> or more is the overflow.
\<close>

definition double_exponent :: "nat \<times> nat \<Rightarrow> int" where
  "double_exponent x = max (floor_log 2 x - 52) (- 1074)"

definition make_double :: "bool \<Rightarrow> nat \<times> nat \<Rightarrow> pyerror + pyfloat" where
  "make_double neg y =
     (if 2 ^ 1024 * snd y \<le> fst y then Inl OverflowError
      else Inr \<lparr>negative = neg, numer = fst y, denom = snd y\<rparr>)"

definition round_to_double :: "bool \<Rightarrow> nat \<times> nat \<Rightarrow> int \<Rightarrow> pyerror + pyfloat" where
  "round_to_double neg x e = make_double neg (scale 2 e (round_half_even (scale 2 (- e) x), 1))"

definition true_divide :: "int \<Rightarrow> int \<Rightarrow> pyerror + pyfloat" where
  "true_divide a b =
     (if b = 0 then Inl ZeroDivisionError
      else if a = 0 then Inr \<lparr>negative = (b < 0), numer = 0, denom = 1\<rparr>
      else round_to_double ((a < 0) \<noteq> (b < 0)) (nat \<bar>a\<bar>, nat \<bar>b\<bar>)
             (double_exponent (nat \<bar>a\<bar>, nat \<bar>b\<bar>)))"

text \<open>Decimal digits.\<close>

definition digit_char :: "nat \<Rightarrow> char" where
  "digit_char d = ''0123456789'' ! (d mod 10)"

function decimal :: "nat \<Rightarrow> string" where
  "decimal n = (if n < 10 then [digit_char n] else decimal (n div 10) @ [digit_char (n mod 10)])"
  by pat_completeness auto
termination
  by (relation "measure id") auto

declare decimal.simps [simp del]

definition strip_zeros :: "string \<Rightarrow> string" where
  "strip_zeros s = rev (dropWhile (\<lambda>c. c = CHR ''0'') (rev s))"

text \<open>
  \<^verbatim>\<open>'%.3g' % x\<close>: the value is rounded to three significant decimal digits (ties to
  even, on the exact value of the float); with \<open>X\<close> the decimal exponent of the
  rounded value, the exponent style is used when \<open>X < -4\<close> or \<open>X \<ge> 3\<close> and the fixed
  style otherwise; trailing zeros of the fraction are dropped, and the point with them
  when nothing is left; the exponent has a sign and at least two digits.
\<close>

text \<open>The exponent style, from the significant digits \<open>ds\<close> without trailing zeros.\<close>

definition exponent_style :: "int \<Rightarrow> string \<Rightarrow> string" where
  "exponent_style X ds =
     [hd ds] @ (if tl ds = [] then [] else ''.'' @ tl ds)
       @ ''e'' @ (if X < 0 then ''-'' else ''+'')
       @ (if \<bar>X\<bar> < 10 then ''0'' else []) @ decimal (nat \<bar>X\<bar>)"

text \<open>The fixed style, from the three digits \<open>r\<close> and the exponent \<open>X\<close> of the first.\<close>

definition fixed_style :: "int \<Rightarrow> nat \<Rightarrow> string" where
  "fixed_style X r =
     (if 0 \<le> X then
        take (nat X + 1) (decimal r)
          @ (if drop (nat X + 1) (strip_zeros (decimal r)) = [] then []
             else ''.'' @ drop (nat X + 1) (strip_zeros (decimal r)))
      else ''0.'' @ replicate (nat (- X - 1)) CHR ''0'' @ strip_zeros (decimal r))"

definition general_style :: "int \<Rightarrow> nat \<Rightarrow> string" where
  "general_style X r =
     (if X < - 4 \<or> 3 \<le> X then exponent_style X (strip_zeros (decimal r)) else fixed_style X r)"

text \<open>Rounding to three digits can carry into a fourth: 999.5 is \<open>1.00\<close> with the next
  exponent.\<close>

definition three_digits :: "int \<Rightarrow> nat \<Rightarrow> string" where
  "three_digits X0 r0 = (if r0 = 1000 then general_style (X0 + 1) 100 else general_style X0 r0)"

definition format_3g :: "pyfloat \<Rightarrow> string" where
  "format_3g x =
     (if negative x then ''-'' else [])
     @ (if numer x = 0 then ''0''
        else three_digits (floor_log 10 (numer x, denom x))
               (round_half_even
                  (scale 10 (2 - floor_log 10 (numer x, denom x)) (numer x, denom x))))"

section \<open>The width readers\<close>

text \<open>\<^verbatim>\<open>_read_width\<close>.  The magnitude is read first; the division is only
  evaluated in the \<^verbatim>\<open>dxa\<close> and \<^verbatim>\<open>pct\<close> branches and is outside the
  \<^verbatim>\<open>try\<close>.\<close>

definition private_read_width :: "xml \<Rightarrow> pyerror + pyval" where
  "private_read_width elem =
     (case (case py_int 10 (get elem ''w:w'') of
              Inr n \<Rightarrow> Inr n
            | Inl e \<Rightarrow> if e = TypeError \<or> e = ValueError then Inr 0 else Inl e) of
        Inl e \<Rightarrow> Inl e
      | Inr w \<Rightarrow>
          let typ = get_default elem ''w:type'' ''auto'' in
          if typ = ''nil'' then Inr (PyStr ''0'')
          else if typ = ''auto'' then Inr (PyStr ''auto'')
          else if typ = ''dxa'' then
            (case true_divide w 20 of
               Inl e \<Rightarrow> Inl e
             | Inr q \<Rightarrow> Inr (PyStr (format_3g q @ ''pt'')))
          else if typ = ''pct'' then
            (case true_divide w 50 of
               Inl e \<Rightarrow> Inl e
             | Inr q \<Rightarrow> Inr (PyStr (format_3g q @ ''%'')))
          else Inr Inherit)"

fun read_width_loop :: "xml list \<Rightarrow> pyval \<Rightarrow> pyerror + pyval" where
  "read_width_loop [] ans = Inr ans"
| "read_width_loop (tblW # rest) ans =
     (case private_read_width tblW of
        Inl e \<Rightarrow> Inl e
      | Inr v \<Rightarrow> read_width_loop rest v)"

definition read_width :: "xml \<Rightarrow> pyobj \<Rightarrow> pyerror + pyobj" where
  "read_width parent dest =
     (case read_width_loop (XPath_children ''w:tblW'' parent) Inherit of
        Inl e \<Rightarrow> Inl e
      | Inr ans \<Rightarrow> Inr (setattr dest ''width'' ans))"

section \<open>\<^verbatim>\<open>read_padding\<close>\<close>

text \<open>
  The function assigns the four edges through \<^verbatim>\<open>locals()\<close>.  Inside a function
  \<^verbatim>\<open>locals()\<close> returns the dictionary of the frame after copying into it the
  current value of every local variable, over whatever the dictionary held under that
  name; storing into the dictionary changes no variable.  The frame is the pair of the
  variables \<open>left\<close>, \<open>top\<close>, \<open>bottom\<close>, \<open>right\<close> with their values and of that
  dictionary.
\<close>

record frame =
  fast_locals :: "string \<rightharpoonup> pyval"
  f_locals :: "string \<rightharpoonup> pyval"

definition locals_call :: "frame \<Rightarrow> frame" where
  "locals_call f = f\<lparr>f_locals := f_locals f ++ fast_locals f\<rparr>"

text \<open>\<^verbatim>\<open>locals()[x] = v\<close>, the value \<open>v\<close> being computed first.\<close>

definition locals_store :: "frame \<Rightarrow> string \<Rightarrow> pyval \<Rightarrow> frame" where
  "locals_store f x v = (locals_call f)\<lparr>f_locals := (f_locals (locals_call f))(x \<mapsto> v)\<rparr>"

fun padding_edge_loop :: "string \<Rightarrow> xml list \<Rightarrow> frame \<Rightarrow> pyerror + frame" where
  "padding_edge_loop x [] f = Inr f"
| "padding_edge_loop x (edge # rest) f =
     (case private_read_width edge of
        Inl e \<Rightarrow> Inl e
      | Inr v \<Rightarrow> padding_edge_loop x rest (locals_store f x v))"

fun padding_x_loop :: "string list \<Rightarrow> xml \<Rightarrow> frame \<Rightarrow> pyerror + frame" where
  "padding_x_loop [] mar f = Inr f"
| "padding_x_loop (x # xs) mar f =
     (case padding_edge_loop x (XPath_children (''w:'' @ x) mar) f of
        Inl e \<Rightarrow> Inl e
      | Inr f' \<Rightarrow> padding_x_loop xs mar f')"

fun padding_mar_loop :: "xml list \<Rightarrow> frame \<Rightarrow> pyerror + frame" where
  "padding_mar_loop [] f = Inr f"
| "padding_mar_loop (mar # rest) f =
     (case padding_x_loop [''left'', ''top'', ''right'', ''bottom''] mar f of
        Inl e \<Rightarrow> Inl e
      | Inr f' \<Rightarrow> padding_mar_loop rest f')"

text \<open>The last loop: \<^verbatim>\<open>setattr(dest, 'cell_padding_%s' % x, locals()[x])\<close>.\<close>

fun padding_setattr_loop :: "string list \<Rightarrow> frame \<Rightarrow> pyobj \<Rightarrow> pyerror + pyobj" where
  "padding_setattr_loop [] f dest = Inr dest"
| "padding_setattr_loop (x # xs) f dest =
     (case f_locals (locals_call f) x of
        None \<Rightarrow> Inl KeyError
      | Some v \<Rightarrow> padding_setattr_loop xs (locals_call f) (setattr dest (''cell_padding_'' @ x) v))"

definition padding_frame :: frame where
  "padding_frame =
     \<lparr>fast_locals = [''left'' \<mapsto> Inherit, ''top'' \<mapsto> Inherit, ''bottom'' \<mapsto> Inherit,
                     ''right'' \<mapsto> Inherit],
      f_locals = Map.empty\<rparr>"

definition padding_name :: "xml \<Rightarrow> string" where
  "padding_name parent = (if suffix ''}tblPr'' (tag parent) then ''tblCellMar'' else ''tcMar'')"

definition read_padding :: "xml \<Rightarrow> pyobj \<Rightarrow> pyerror + pyobj" where
  "read_padding parent dest =
     (case padding_mar_loop (XPath_children (''w:'' @ padding_name parent) parent) padding_frame of
        Inl e \<Rightarrow> Inl e
      | Inr f \<Rightarrow> padding_setattr_loop [''left'', ''top'', ''right'', ''bottom''] f dest)"

section \<open>The output tree\<close>

text \<open>
  The converted document is a tree of \<^verbatim>\<open>lxml\<close> elements that \<^verbatim>\<open>apply_markup\<close>
  changes in place.  Elements are objects: the tree is a store from addresses to
  elements, each with its tag, text, tail, the addresses of its children in order and
  the address of its parent; the addresses below \<open>fresh\<close> are in use.
\<close>

record element =
  etag :: string
  etext :: "string option"
  etail :: "string option"
  kids :: "nat list"
  up :: "nat option"

record tree =
  elems :: "nat \<Rightarrow> element"
  fresh :: nat

text \<open>The element makers \<^verbatim>\<open>TABLE\<close>, \<^verbatim>\<open>TR\<close>, \<^verbatim>\<open>TD\<close>: a new element without parent
  and children, at the next address.\<close>

definition make_element :: "string \<Rightarrow> string option \<Rightarrow> tree \<Rightarrow> nat \<times> tree" where
  "make_element tg txt t =
     (fresh t,
      t\<lparr>elems := (elems t)(fresh t :=
             \<lparr>etag = tg, etext = txt, etail = None, kids = [], up = None\<rparr>),
        fresh := Suc (fresh t)\<rparr>)"

definition getparent :: "tree \<Rightarrow> nat \<Rightarrow> nat option" where
  "getparent t x = up (elems t x)"

definition set_tail :: "tree \<Rightarrow> nat \<Rightarrow> string \<Rightarrow> tree" where
  "set_tail t x s = t\<lparr>elems := (elems t)(x := (elems t x)\<lparr>etail := Some s\<rparr>)\<rparr>"

text \<open>\<^verbatim>\<open>parent.index(child)\<close>: the position of the child, \<^verbatim>\<open>ValueError\<close> when it is
  not among the children.\<close>

fun position :: "nat list \<Rightarrow> nat \<Rightarrow> nat option" where
  "position [] x = None"
| "position (y # ys) x = (if y = x then Some 0 else map_option Suc (position ys x))"

definition index :: "tree \<Rightarrow> nat \<Rightarrow> nat \<Rightarrow> pyerror + nat" where
  "index t parent child =
     (case position (kids (elems t parent)) child of None \<Rightarrow> Inl ValueError | Some i \<Rightarrow> Inr i)"

text \<open>An element that is put somewhere else leaves its parent first.\<close>

definition unlink :: "tree \<Rightarrow> nat \<Rightarrow> tree" where
  "unlink t x =
     (case up (elems t x) of
        None \<Rightarrow> t
      | Some p \<Rightarrow>
          t\<lparr>elems := (elems t)
                (p := (elems t p)\<lparr>kids := remove1 x (kids (elems t p))\<rparr>,
                 x := (if x = p then (elems t p)\<lparr>kids := remove1 x (kids (elems t p))\<rparr>
                       else elems t x)\<lparr>up := None\<rparr>)\<rparr>)"

text \<open>\<open>a\<close> is \<open>x\<close> or one of its ancestors; a chain of parents has less than \<open>fresh\<close>
  steps.\<close>

fun climbs :: "nat \<Rightarrow> tree \<Rightarrow> nat \<Rightarrow> nat \<Rightarrow> bool" where
  "climbs 0 t a x = (a = x)"
| "climbs (Suc n) t a x =
     (a = x \<or> (case up (elems t x) of None \<Rightarrow> False | Some y \<Rightarrow> climbs n t a y))"

definition is_ancestor_or_same :: "tree \<Rightarrow> nat \<Rightarrow> nat \<Rightarrow> bool" where
  "is_ancestor_or_same t a x = climbs (fresh t) t a x"

definition link :: "tree \<Rightarrow> nat \<Rightarrow> nat list \<Rightarrow> nat \<Rightarrow> tree" where
  "link t parent ks child =
     t\<lparr>elems := (elems t)
           (parent := (elems t parent)\<lparr>kids := ks\<rparr>,
            child := (if child = parent then (elems t parent)\<lparr>kids := ks\<rparr>
                      else elems t child)\<lparr>up := Some parent\<rparr>)\<rparr>"

text \<open>\<^verbatim>\<open>parent.append(child)\<close> moves the child (with its tail) to the end of the
  children of \<open>parent\<close>; \<^verbatim>\<open>lxml\<close> refuses with \<^verbatim>\<open>ValueError\<close> to put an element
  under itself or under one of its descendants.\<close>

definition append :: "tree \<Rightarrow> nat \<Rightarrow> nat \<Rightarrow> pyerror + tree" where
  "append t parent child =
     (if is_ancestor_or_same t child parent then Inl ValueError
      else Inr (link (unlink t child) parent
                  (kids (elems (unlink t child) parent) @ [child]) child))"

text \<open>\<^verbatim>\<open>parent.insert(idx, child)\<close>, for a position \<open>idx\<close> among the children.\<close>

definition insert_at :: "tree \<Rightarrow> nat \<Rightarrow> nat \<Rightarrow> nat \<Rightarrow> pyerror + tree" where
  "insert_at t parent idx child =
     (if is_ancestor_or_same t child parent then Inl ValueError
      else Inr (link (unlink t child) parent
                  (take idx (kids (elems (unlink t child) parent)) @ [child]
                     @ drop idx (kids (elems (unlink t child) parent))) child))"

section \<open>\<^verbatim>\<open>Tables.apply_markup\<close>\<close>

text \<open>\<^verbatim>\<open>rmap = {v:k for k, v in object_map.iteritems()}\<close>, the object map being given
  by its items (output element, source paragraph) in iteration order.\<close>

definition rmap_of :: "(nat \<times> xml) list \<Rightarrow> (xml \<rightharpoonup> nat)" where
  "rmap_of object_map = fold (\<lambda>(k, v) m. m(v \<mapsto> k)) object_map Map.empty"

definition nl_tabs :: "nat \<Rightarrow> string" where
  "nl_tabs n = CHR 0x0A # replicate n (CHR 0x09)"

text \<open>The innermost loop: \<^verbatim>\<open>for p in XPath('./w:p')(tc)\<close>.\<close>

fun p_loop :: "(xml \<rightharpoonup> nat) \<Rightarrow> nat \<Rightarrow> xml list \<Rightarrow> tree \<Rightarrow> pyerror + tree" where
  "p_loop rmap td [] t = Inr t"
| "p_loop rmap td (p # ps) t =
     (case rmap p of
        None \<Rightarrow> Inl KeyError
      | Some block \<Rightarrow>
          (case append t td block of
             Inl e \<Rightarrow> Inl e
           | Inr t' \<Rightarrow> p_loop rmap td ps t'))"

text \<open>\<^verbatim>\<open>for tc in XPath('./w:tc')(row)\<close>.\<close>

fun tc_loop :: "(xml \<rightharpoonup> nat) \<Rightarrow> nat \<Rightarrow> xml list \<Rightarrow> tree \<Rightarrow> pyerror + tree" where
  "tc_loop rmap tr [] t = Inr t"
| "tc_loop rmap tr (tc # tcs) t =
     (case make_element ''td'' None t of
        (td, t1) \<Rightarrow>
          (case append (set_tail t1 td (nl_tabs 3)) tr td of
             Inl e \<Rightarrow> Inl e
           | Inr t2 \<Rightarrow>
               (case p_loop rmap td (XPath_children ''w:p'' tc) t2 of
                  Inl e \<Rightarrow> Inl e
                | Inr t3 \<Rightarrow> tc_loop rmap tr tcs t3)))"

text \<open>\<^verbatim>\<open>if len(x): x[-1].tail = s\<close>.\<close>

definition set_last_tail :: "tree \<Rightarrow> nat \<Rightarrow> string \<Rightarrow> tree" where
  "set_last_tail t x s =
     (if kids (elems t x) = [] then t else set_tail t (last (kids (elems t x))) s)"

text \<open>\<^verbatim>\<open>for row in XPath('./w:tr')(tbl)\<close>.\<close>

fun tr_loop :: "(xml \<rightharpoonup> nat) \<Rightarrow> nat \<Rightarrow> xml list \<Rightarrow> tree \<Rightarrow> pyerror + tree" where
  "tr_loop rmap table [] t = Inr t"
| "tr_loop rmap table (row # rows) t =
     (case make_element ''tr'' (Some (nl_tabs 3)) t of
        (tr, t1) \<Rightarrow>
          (case append (set_tail t1 tr (nl_tabs 2)) table tr of
             Inl e \<Rightarrow> Inl e
           | Inr t2 \<Rightarrow>
               (case tc_loop rmap tr (XPath_children ''w:tc'' row) t2 of
                  Inl e \<Rightarrow> Inl e
                | Inr t3 \<Rightarrow> tr_loop rmap table rows (set_last_tail t3 tr (nl_tabs 2)))))"

text \<open>The first four statements of the loop body: the parent of the first block is
  looked up, the table element is made and inserted where the block is.\<close>

definition insert_table :: "(xml \<rightharpoonup> nat) \<Rightarrow> xml \<Rightarrow> tree \<Rightarrow> pyerror + nat \<times> tree" where
  "insert_table rmap block0 t =
     (case rmap block0 of
        None \<Rightarrow> Inl KeyError
      | Some b \<Rightarrow>
          (case make_element ''table'' (Some (nl_tabs 2)) t of
             (table, t1) \<Rightarrow>
               (case getparent t b of
                  None \<Rightarrow> Inl AttributeError
                | Some parent \<Rightarrow>
                    (case index t1 parent b of
                       Inl e \<Rightarrow> Inl e
                     | Inr idx \<Rightarrow>
                         (case insert_at t1 parent idx table of
                            Inl e \<Rightarrow> Inl e
                          | Inr t2 \<Rightarrow> Inr (table, t2))))))"

text \<open>The body of \<^verbatim>\<open>for tbl, blocks in self.tables.iteritems()\<close>.\<close>

definition apply_table :: "(xml \<rightharpoonup> nat) \<Rightarrow> xml \<times> xml list \<Rightarrow> tree \<Rightarrow> pyerror + tree" where
  "apply_table rmap item t =
     (case snd item of
        [] \<Rightarrow> Inr t
      | block0 # rest \<Rightarrow>
          (case insert_table rmap block0 t of
             Inl e \<Rightarrow> Inl e
           | Inr (table, t1) \<Rightarrow>
               (case tr_loop rmap table (XPath_children ''w:tr'' (fst item)) t1 of
                  Inl e \<Rightarrow> Inl e
                | Inr t2 \<Rightarrow> Inr (set_last_tail t2 table (nl_tabs 1)))))"

fun tables_loop :: "(xml \<rightharpoonup> nat) \<Rightarrow> (xml \<times> xml list) list \<Rightarrow> tree \<Rightarrow> pyerror + tree" where
  "tables_loop rmap [] t = Inr t"
| "tables_loop rmap (item # items) t =
     (case apply_table rmap item t of
        Inl e \<Rightarrow> Inl e
      | Inr t' \<Rightarrow> tables_loop rmap items t')"

definition apply_markup ::
    "(xml, xml) Tables \<Rightarrow> (nat \<times> xml) list \<Rightarrow> tree \<Rightarrow> pyerror + tree" where
  "apply_markup self object_map t = tables_loop (rmap_of object_map) (iteritems self) t"

section \<open>What assembly is to produce\<close>

text \<open>
  The element at \<open>table\<close> is a table for the source node \<open>tbl\<close>: it has the tag
  \<^verbatim>\<open>table\<close>, its children are row containers, one for each \<^verbatim>\<open>w:tr\<close> child of
  \<open>tbl\<close> in document order, and the children of the row container of a row are cell
  containers, one for each \<^verbatim>\<open>w:tc\<close> child of the row in document order.
\<close>

definition table_shape :: "tree \<Rightarrow> nat \<Rightarrow> xml \<Rightarrow> bool" where
  "table_shape t table tbl =
     (etag (elems t table) = ''table''
      \<and> list_all2
           (\<lambda>tr row. etag (elems t tr) = ''tr''
              \<and> list_all2 (\<lambda>td tc. etag (elems t td) = ''td'')
                   (kids (elems t tr)) (XPath_children ''w:tc'' row))
           (kids (elems t table)) (XPath_children ''w:tr'' tbl))"

text \<open>The table elements among the elements made since the tree had \<open>f0\<close> elements, in
  the order of their making.\<close>

definition made_tables :: "nat \<Rightarrow> tree \<Rightarrow> nat list" where
  "made_tables f0 t = filter (\<lambda>a. etag (elems t a) = ''table'') [f0..<fresh t]"

text \<open>The tables that contributed blocks.\<close>

definition contributing :: "(xml \<times> xml list) list \<Rightarrow> xml list" where
  "contributing items = map fst (filter (\<lambda>item. snd item \<noteq> []) items)"

text \<open>The output elements of the object map are elements of the tree, and so are their
  parents.\<close>

definition allocated :: "(nat \<times> xml) list \<Rightarrow> tree \<Rightarrow> bool" where
  "allocated object_map t =
     list_all (\<lambda>item. fst item < fresh t
                 \<and> (case up (elems t (fst item)) of None \<Rightarrow> True | Some y \<Rightarrow> y < fresh t))
       object_map"

text \<open>
  The invariant of the loops, for a run that started with \<open>f0\<close> elements: blocks are
  elements from before the run, and the parent of a block is an element of the tree
  that is from before the run or a cell container.
\<close>

definition blocks_inv :: "nat \<Rightarrow> (xml \<rightharpoonup> nat) \<Rightarrow> tree \<Rightarrow> bool" where
  "blocks_inv f0 rmap t =
     (f0 \<le> fresh t
      \<and> (\<forall>x \<in> ran rmap. x < f0
            \<and> (\<forall>y. up (elems t x) = Some y \<longrightarrow>
                  y < fresh t \<and> (f0 \<le> y \<longrightarrow> etag (elems t y) = ''td''))))"

text \<open>
  From \<open>t\<close> to \<open>t'\<close> no element is lost, no tag changes, and the children of the
  elements made during the run that are not cell containers, those in \<open>S\<close> apart, stay
  as they are.
\<close>

definition steady :: "nat \<Rightarrow> nat set \<Rightarrow> tree \<Rightarrow> tree \<Rightarrow> bool" where
  "steady f0 S t t' =
     (fresh t \<le> fresh t'
      \<and> (\<forall>a < fresh t. etag (elems t' a) = etag (elems t a))
      \<and> (\<forall>a. f0 \<le> a \<and> a < fresh t \<and> etag (elems t a) \<noteq> ''td'' \<and> a \<notin> S \<longrightarrow>
            kids (elems t' a) = kids (elems t a)))"

text \<open>The shape of a row container and of a table made during the run, with the
  addresses of the containers bounded.\<close>

definition row_made :: "nat \<Rightarrow> tree \<Rightarrow> nat \<Rightarrow> xml \<Rightarrow> bool" where
  "row_made f0 t tr row =
     (f0 \<le> tr \<and> tr < fresh t \<and> etag (elems t tr) = ''tr''
      \<and> list_all2 (\<lambda>td tc. td < fresh t \<and> etag (elems t td) = ''td'')
           (kids (elems t tr)) (XPath_children ''w:tc'' row))"

definition table_made :: "nat \<Rightarrow> tree \<Rightarrow> nat \<Rightarrow> xml \<Rightarrow> bool" where
  "table_made f0 t table tbl =
     (f0 \<le> table \<and> table < fresh t \<and> etag (elems t table) = ''table''
      \<and> list_all2 (row_made f0 t) (kids (elems t table)) (XPath_children ''w:tr'' tbl))"

text \<open>The number of elements of the table for a source node: the table, its row
  containers and their cell containers.\<close>

definition table_size :: "xml \<Rightarrow> nat" where
  "table_size tbl =
     1 + sum_list (map (\<lambda>row. 1 + length (XPath_children ''w:tc'' row))
                     (XPath_children ''w:tr'' tbl))"

text \<open>From \<open>t\<close> to \<open>t'\<close> an element of \<open>t\<close> that is not a block keeps its parent and
  stays among the children of every element of \<open>t\<close> it is a child of.\<close>

definition stays :: "(xml \<rightharpoonup> nat) \<Rightarrow> tree \<Rightarrow> tree \<Rightarrow> bool" where
  "stays rmap t t' =
     (fresh t \<le> fresh t'
      \<and> (\<forall>x. x < fresh t \<and> x \<notin> ran rmap \<longrightarrow>
            up (elems t' x) = up (elems t x)
            \<and> (\<forall>p. p < fresh t \<and> x \<in> set (kids (elems t p)) \<longrightarrow>
                   x \<in> set (kids (elems t' p)))))"

section \<open>Example documents\<close>

text \<open>A property container whose band size, look flags and column span are present
  but not numbers.\<close>

definition example_malformed :: xml where
  "example_malformed =
     Element 0 (expand ''w:tblPr'') []
       [Element 1 (expand ''w:tblStyleColBandSize'') [(expand ''w:val'', ''two'')] [],
        Element 2 (expand ''w:tblLook'') [(expand ''w:val'', ''0xZZ'')] [],
        Element 3 (expand ''w:gridSpan'') [] []]"

definition example_calls :: "(nat, nat) tables_call list" where
  "example_calls = [Register 1, Add 10, Add 11, Register 2, Add 20]"

text \<open>A table property container with a cell margin of 100 twentieths of a point on the
  left, and the left edge node alone.\<close>

definition example_left_edge :: xml where
  "example_left_edge =
     Element 12 (expand ''w:left'') [(expand ''w:w'', ''100''), (expand ''w:type'', ''dxa'')] []"

definition example_padding :: xml where
  "example_padding =
     Element 10 (expand ''w:tblPr'') [] [Element 11 (expand ''w:tblCellMar'') [] [example_left_edge]]"



definition example_no_magnitude :: xml where
  "example_no_magnitude = Element 1 (expand ''w:tblW'') [(expand ''w:type'', ''dxa'')] []"


text \<open>Width nodes with the unit types \<^verbatim>\<open>nil\<close> and \<^verbatim>\<open>auto\<close> and without a unit
  type.\<close>

definition example_nil :: xml where
  "example_nil =
     Element 1 (expand ''w:tblW'') [(expand ''w:w'', ''240''), (expand ''w:type'', ''nil'')] []"

definition example_auto :: xml where
  "example_auto =
     Element 1 (expand ''w:tblW'') [(expand ''w:w'', ''240''), (expand ''w:type'', ''auto'')] []"

definition example_untyped :: xml where
  "example_untyped = Element 1 (expand ''w:tblW'') [(expand ''w:w'', ''240'')] []"

text \<open>
  A document with a paragraph, a table of one row with two cells of one paragraph each,
  and a table without rows that contributes no block; the registration state after the
  flattening pass; the output tree, a body with the three converted paragraphs; and the
  object map from the converted paragraphs to their sources.
\<close>

definition example_p0 :: xml where
  "example_p0 = Element 20 (expand ''w:p'') [] []"

definition example_p1 :: xml where
  "example_p1 = Element 21 (expand ''w:p'') [] []"

definition example_p2 :: xml where
  "example_p2 = Element 22 (expand ''w:p'') [] []"

definition example_tbl :: xml where
  "example_tbl =
     Element 30 (expand ''w:tbl'') []
       [Element 31 (expand ''w:tr'') []
          [Element 32 (expand ''w:tc'') [] [example_p1],
           Element 33 (expand ''w:tc'') [] [example_p2]]]"

definition example_tbl_empty :: xml where
  "example_tbl_empty = Element 40 (expand ''w:tbl'') [] []"

definition example_tables :: "(xml, xml) Tables" where
  "example_tables =
     \<lparr>lists = (\<lambda>a. [])(2 := [example_p1, example_p2]), next_list = 4,
      tables = [(example_tbl, 2), (example_tbl_empty, 3)], current_table = Some 3\<rparr>"

definition example_element :: "string \<Rightarrow> nat list \<Rightarrow> nat option \<Rightarrow> element" where
  "example_element tg ks p = \<lparr>etag = tg, etext = None, etail = None, kids = ks, up = p\<rparr>"

definition example_tree :: tree where
  "example_tree =
     \<lparr>elems = (\<lambda>a. example_element [] [] None)
         (2 := example_element ''body'' [3, 4, 5] None,
          3 := example_element ''p'' [] (Some 2),
          4 := example_element ''p'' [] (Some 2),
          5 := example_element ''p'' [] (Some 2)),
      fresh = 6\<rparr>"

definition example_object_map :: "(nat \<times> xml) list" where
  "example_object_map = [(3, example_p0), (4, example_p1), (5, example_p2)]"

section \<open>Properties of the cascade\<close>

lemma update_loop_result:
  assumes "has_properties props other"
  shows "\<exists>self'. update_loop props self other = Inr self'
           \<and> (\<forall>p. self' p = (if p \<in> set props \<and> other p \<noteq> Some Inherit then other p else self p))"
  using assms
proof (induction props arbitrary: self)
  case Nil
  then show ?case by simp
next
  case (Cons q props)
  from Cons.prems obtain v where v: "other q = Some v" and rest: "has_properties props other"
    by (auto simp: has_properties_def)
  show ?case
  proof (cases "v = Inherit")
    case True
    from Cons.IH [OF rest, of self] obtain s where
      s: "update_loop props self other = Inr s"
         "\<forall>p. s p = (if p \<in> set props \<and> other p \<noteq> Some Inherit then other p else self p)"
      by blast
    have "update_loop (q # props) self other = Inr s"
      using v True s(1) by (simp add: getattr_def)
    moreover have "\<forall>p. s p = (if p \<in> set (q # props) \<and> other p \<noteq> Some Inherit
                               then other p else self p)"
      using s(2) v True by auto
    ultimately show ?thesis by blast
  next
    case False
    from Cons.IH [OF rest, of "setattr self q v"] obtain s where
      s: "update_loop props (setattr self q v) other = Inr s"
         "\<forall>p. s p = (if p \<in> set props \<and> other p \<noteq> Some Inherit then other p
                      else (setattr self q v) p)"
      by blast
    have "update_loop (q # props) self other = Inr s"
      using v False s(1) by (simp add: getattr_def)
    moreover have "\<forall>p. s p = (if p \<in> set (q # props) \<and> other p \<noteq> Some Inherit
                               then other p else self p)"
      using s(2) v False by (auto simp: setattr_def)
    ultimately show ?thesis by blast
  qed
qed

text \<open>
  C1.  For a \<^verbatim>\<open>TableStyle\<close> \<open>other\<close> (an instance with every property of
  \<^verbatim>\<open>all_properties\<close>), \<^verbatim>\<open>self.update(other)\<close> returns, and afterwards every property
  of \<^verbatim>\<open>all_properties\<close> has the value of \<open>other\<close> where that is not the inherited
  sentinel and is unchanged in \<open>self\<close> where it is: an inherited value of the later
  level never overwrites an earlier value.
\<close>

theorem update_keeps_or_overrides:
  assumes "has_properties (TableStyle_all_properties border_props) other"
  shows "\<exists>self'. TableStyle_update border_props self other = Inr self'
           \<and> (\<forall>p \<in> set (TableStyle_all_properties border_props).
                 (other p \<noteq> Some Inherit \<longrightarrow> self' p = other p)
               \<and> (other p = Some Inherit \<longrightarrow> self' p = self p))"
proof -
  from update_loop_result [OF assms, of self] obtain s where
    "update_loop (TableStyle_all_properties border_props) self other = Inr s"
    "\<forall>p. s p = (if p \<in> set (TableStyle_all_properties border_props) \<and> other p \<noteq> Some Inherit
                 then other p else self p)"
    by blast
  then show ?thesis
    unfolding TableStyle_update_def by auto
qed

theorem update_keeps_or_overrides_witness:
  "has_properties (TableStyle_all_properties [(''border_'', ''_width'')])
     (\<lambda>p. Some (if p = ''width'' then PyStr ''auto'' else Inherit))
   \<and> (\<exists>self'. TableStyle_update [(''border_'', ''_width'')] (\<lambda>p. Some (PyStr ''5pt''))
                  (\<lambda>p. Some (if p = ''width'' then PyStr ''auto'' else Inherit)) = Inr self'
         \<and> self' ''width'' = Some (PyStr ''auto'')
         \<and> self' ''border_top_width'' = Some (PyStr ''5pt''))"
proof -
  let ?other = "\<lambda>p::string. Some (if p = ''width'' then PyStr ''auto'' else Inherit)"
  let ?props = "TableStyle_all_properties [(''border_'', ''_width'')]"
  have h: "has_properties ?props ?other"
    by (simp add: has_properties_def list_all_iff)
  have m: "''width'' \<in> set ?props" "''border_top_width'' \<in> set ?props"
    by (simp_all add: TableStyle_all_properties_def border_properties_def border_edges_def
        percent_def)
  from update_keeps_or_overrides [OF h, of "\<lambda>p. Some (PyStr ''5pt'')"] obtain s where
    s: "TableStyle_update [(''border_'', ''_width'')] (\<lambda>p. Some (PyStr ''5pt'')) ?other = Inr s"
    and a: "\<forall>p \<in> set ?props. (?other p \<noteq> Some Inherit \<longrightarrow> s p = ?other p)
              \<and> (?other p = Some Inherit \<longrightarrow> s p = Some (PyStr ''5pt''))"
    by blast
  from bspec [OF a m(1)] have "s ''width'' = Some (PyStr ''auto'')" by simp
  moreover from bspec [OF a m(2)] have "s ''border_top_width'' = Some (PyStr ''5pt'')" by simp
  ultimately show ?thesis using h s by blast
qed

section \<open>Resolution against a parent\<close>

lemma resolve_loop_result:
  assumes "has_properties props self" and "has_properties props parent"
  shows "\<exists>self'. resolve_loop props self parent = Inr self'
           \<and> (\<forall>p. self' p = (if p \<in> set props \<and> self p = Some Inherit then parent p else self p))"
  using assms
proof (induction props arbitrary: self)
  case Nil
  then show ?case by simp
next
  case (Cons q props)
  from Cons.prems obtain v pv where v: "self q = Some v" and pv: "parent q = Some pv"
    and rs: "has_properties props self" and rp: "has_properties props parent"
    by (auto simp: has_properties_def)
  show ?case
  proof (cases "v = Inherit")
    case False
    from Cons.IH [OF rs rp] obtain s where
      s: "resolve_loop props self parent = Inr s"
         "\<forall>p. s p = (if p \<in> set props \<and> self p = Some Inherit then parent p else self p)"
      by blast
    have "resolve_loop (q # props) self parent = Inr s"
      using v False s(1) by (simp add: getattr_def)
    moreover have "\<forall>p. s p = (if p \<in> set (q # props) \<and> self p = Some Inherit
                               then parent p else self p)"
      using s(2) v False by auto
    ultimately show ?thesis by blast
  next
    case True
    let ?self = "setattr self q pv"
    have "has_properties props ?self"
      using rs by (simp add: has_properties_def setattr_def list_all_iff)
    from Cons.IH [OF this rp] obtain s where
      s: "resolve_loop props ?self parent = Inr s"
         "\<forall>p. s p = (if p \<in> set props \<and> ?self p = Some Inherit then parent p else ?self p)"
      by blast
    have "resolve_loop (q # props) self parent = Inr s"
      using v pv True s(1) by (simp add: getattr_def)
    moreover have "\<forall>p. s p = (if p \<in> set (q # props) \<and> self p = Some Inherit
                               then parent p else self p)"
      using s(2) v pv True by (auto simp: setattr_def)
    ultimately show ?thesis by blast
  qed
qed

lemma resolve_loop_fixed:
  assumes "\<forall>p \<in> set props. self p \<noteq> None \<and> self p \<noteq> Some Inherit"
  shows "resolve_loop props self parent = Inr self"
  using assms
  by (induction props) (auto simp: getattr_def)

text \<open>
  C2.  For a \<^verbatim>\<open>TableStyle\<close> \<open>self\<close> and a fully resolved parent (every property
  present and none of them the inherited sentinel), \<^verbatim>\<open>self.resolve_based_on(parent)\<close>
  returns a record in which no property is the inherited sentinel, every property that
  was inherited has the parent's value and every other property is unchanged; calling
  it a second time returns the same record.
\<close>

theorem resolve_based_on_idempotent:
  assumes "has_properties (TableStyle_all_properties border_props) self"
    and "fully_resolved (TableStyle_all_properties border_props) parent"
  shows "\<exists>s1. TableStyle_resolve_based_on border_props self parent = Inr s1
           \<and> TableStyle_resolve_based_on border_props s1 parent = Inr s1
           \<and> (\<forall>p \<in> set (TableStyle_all_properties border_props).
                 s1 p \<noteq> None \<and> s1 p \<noteq> Some Inherit
               \<and> s1 p = (if self p = Some Inherit then parent p else self p))"
proof -
  let ?props = "TableStyle_all_properties border_props"
  have par: "\<forall>p \<in> set ?props. parent p \<noteq> None \<and> parent p \<noteq> Some Inherit"
    using assms(2) by (simp add: fully_resolved_def list_all_iff)
  then have hp: "has_properties ?props parent"
    by (simp add: has_properties_def list_all_iff)
  from resolve_loop_result [OF assms(1) hp] obtain s where
    s: "resolve_loop ?props self parent = Inr s"
       "\<forall>p. s p = (if p \<in> set ?props \<and> self p = Some Inherit then parent p else self p)"
    by blast
  have own: "\<forall>p \<in> set ?props. self p \<noteq> None"
    using assms(1) by (simp add: has_properties_def list_all_iff)
  have res: "\<forall>p \<in> set ?props. s p \<noteq> None \<and> s p \<noteq> Some Inherit"
    using s(2) par own by auto
  have "resolve_loop ?props s parent = Inr s"
    using res by (rule resolve_loop_fixed)
  with s res show ?thesis
    unfolding TableStyle_resolve_based_on_def by auto
qed

theorem resolve_based_on_idempotent_witness:
  "has_properties (TableStyle_all_properties [(''border_'', ''_width'')])
     (\<lambda>p. Some (if p = ''width'' then PyStr ''auto'' else Inherit))
   \<and> fully_resolved (TableStyle_all_properties [(''border_'', ''_width'')])
     (\<lambda>p. Some (PyStr ''5pt''))
   \<and> (\<exists>s1. TableStyle_resolve_based_on [(''border_'', ''_width'')]
               (\<lambda>p. Some (if p = ''width'' then PyStr ''auto'' else Inherit))
               (\<lambda>p. Some (PyStr ''5pt'')) = Inr s1
         \<and> TableStyle_resolve_based_on [(''border_'', ''_width'')] s1
               (\<lambda>p. Some (PyStr ''5pt'')) = Inr s1
         \<and> s1 ''width'' = Some (PyStr ''auto'')
         \<and> s1 ''border_top_width'' = Some (PyStr ''5pt''))"
proof -
  let ?self = "\<lambda>p::string. Some (if p = ''width'' then PyStr ''auto'' else Inherit)"
  let ?parent = "\<lambda>p::string. Some (PyStr ''5pt'')"
  let ?props = "TableStyle_all_properties [(''border_'', ''_width'')]"
  have h1: "has_properties ?props ?self"
    by (simp add: has_properties_def list_all_iff)
  have h2: "fully_resolved ?props ?parent"
    by (simp add: fully_resolved_def list_all_iff)
  have m: "''width'' \<in> set ?props" "''border_top_width'' \<in> set ?props"
    by (simp_all add: TableStyle_all_properties_def border_properties_def border_edges_def
        percent_def)
  from resolve_based_on_idempotent [OF h1 h2] obtain s where
    s: "TableStyle_resolve_based_on [(''border_'', ''_width'')] ?self ?parent = Inr s"
       "TableStyle_resolve_based_on [(''border_'', ''_width'')] s ?parent = Inr s"
    and a: "\<forall>p \<in> set ?props. s p \<noteq> None \<and> s p \<noteq> Some Inherit
              \<and> s p = (if ?self p = Some Inherit then ?parent p else ?self p)"
    by blast
  from bspec [OF a m(1)] have "s ''width'' = Some (PyStr ''auto'')" by simp
  moreover from bspec [OF a m(2)] have "s ''border_top_width'' = Some (PyStr ''5pt'')" by simp
  ultimately show ?thesis using h1 h2 s by blast
qed

section \<open>Properties of the readers\<close>

lemma justification_loop_result:
  "justification_loop jcs (l, r) =
     (if \<exists>v \<in> set (List.map_filter (\<lambda>jc. get jc ''w:val'') jcs). v = ''right'' \<or> v = ''center''
      then PyStr ''auto'' else l,
      if \<exists>v \<in> set (List.map_filter (\<lambda>jc. get jc ''w:val'') jcs). v = ''left'' \<or> v = ''center''
      then PyStr ''auto'' else r)"
proof (induction jcs arbitrary: l r)
  case Nil
  then show ?case by (simp add: map_filter_simps)
next
  case (Cons jc jcs)
  show ?case
  proof (cases "get jc ''w:val''")
    case None
    then show ?thesis using Cons.IH by (simp add: map_filter_simps)
  next
    case (Some val)
    then show ?thesis using Cons.IH by (auto simp: map_filter_simps)
  qed
qed

lemma map_filter_with:
  "List.map_filter (\<lambda>jc. get jc a) (filter (\<lambda>c. get c a \<noteq> None) xs)
     = List.map_filter (\<lambda>jc. get jc a) xs"
  by (induction xs) (auto simp: map_filter_simps split: option.splits)

lemma read_justification_result:
  "read_justification parent dest =
     (dest(''margin_left'' \<mapsto>
             (if \<exists>v \<in> set (justification_values parent). v = ''right'' \<or> v = ''center''
              then PyStr ''auto'' else Inherit)))
         (''margin_right'' \<mapsto>
             (if \<exists>v \<in> set (justification_values parent). v = ''left'' \<or> v = ''center''
              then PyStr ''auto'' else Inherit))"
  unfolding read_justification_def justification_values_def XPath_children_with_def
    justification_loop_result map_filter_with
  by (simp add: setattr_def)

text \<open>
  C7.  Under a table property container, when the justification value present is
  \<^verbatim>\<open>left\<close>, \<^verbatim>\<open>read_justification\<close> sets \<^verbatim>\<open>margin_right\<close> to \<^verbatim>\<open>auto\<close> and
  \<^verbatim>\<open>margin_left\<close> to the inherited sentinel; when it is \<^verbatim>\<open>right\<close>, \<^verbatim>\<open>margin_left\<close>
  is \<^verbatim>\<open>auto\<close> and \<^verbatim>\<open>margin_right\<close> inherited; when it is \<^verbatim>\<open>center\<close>, both are
  \<^verbatim>\<open>auto\<close>; with no justification node both are inherited.
\<close>

theorem justification_margins:
  "(set (justification_values parent) = {''left''} \<longrightarrow>
      read_justification parent dest ''margin_left'' = Some Inherit
    \<and> read_justification parent dest ''margin_right'' = Some (PyStr ''auto''))
 \<and> (set (justification_values parent) = {''right''} \<longrightarrow>
      read_justification parent dest ''margin_left'' = Some (PyStr ''auto'')
    \<and> read_justification parent dest ''margin_right'' = Some Inherit)
 \<and> (set (justification_values parent) = {''center''} \<longrightarrow>
      read_justification parent dest ''margin_left'' = Some (PyStr ''auto'')
    \<and> read_justification parent dest ''margin_right'' = Some (PyStr ''auto''))
 \<and> (XPath_children ''w:jc'' parent = [] \<longrightarrow>
      read_justification parent dest ''margin_left'' = Some Inherit
    \<and> read_justification parent dest ''margin_right'' = Some Inherit)"
proof -
  have "XPath_children ''w:jc'' parent = [] \<Longrightarrow> justification_values parent = []"
    by (simp add: justification_values_def map_filter_simps)
  then show ?thesis
    unfolding read_justification_result by auto
qed

lemmas xml_query_defs =
  justification_values_def XPath_children_def XPath_children_with_def get_def get_default_def
  expand_def w_namespace_def map_filter_simps

theorem justification_margins_witness:
  "(set (justification_values
      (Element 0 (expand ''w:tblPr'') []
        [Element 1 (expand ''w:jc'') [(expand ''w:val'', ''left'')] []])) = {''left''}
    \<and> read_justification
      (Element 0 (expand ''w:tblPr'') []
        [Element 1 (expand ''w:jc'') [(expand ''w:val'', ''left'')] []]) Map.empty ''margin_right''
        = Some (PyStr ''auto''))
 \<and> (set (justification_values
      (Element 0 (expand ''w:tblPr'') []
        [Element 1 (expand ''w:jc'') [(expand ''w:val'', ''right'')] []])) = {''right''}
    \<and> read_justification
      (Element 0 (expand ''w:tblPr'') []
        [Element 1 (expand ''w:jc'') [(expand ''w:val'', ''right'')] []]) Map.empty ''margin_right''
        = Some Inherit)
 \<and> (set (justification_values
      (Element 0 (expand ''w:tblPr'') []
        [Element 1 (expand ''w:jc'') [(expand ''w:val'', ''center'')] []])) = {''center''}
    \<and> read_justification
      (Element 0 (expand ''w:tblPr'') []
        [Element 1 (expand ''w:jc'') [(expand ''w:val'', ''center'')] []]) Map.empty ''margin_left''
        = Some (PyStr ''auto''))
 \<and> (XPath_children ''w:jc''
      (Element 0 (expand ''w:tblPr'') [] [Element 1 (expand ''w:tblW'') [] []]) = []
    \<and> read_justification
      (Element 0 (expand ''w:tblPr'') [] [Element 1 (expand ''w:tblW'') [] []]) Map.empty
        ''margin_left'' = Some Inherit)"
proof -
  let ?P = "\<lambda>v. Element 0 (expand ''w:tblPr'') []
                  [Element 1 (expand ''w:jc'') [(expand ''w:val'', v)] []]"
  let ?Q = "Element 0 (expand ''w:tblPr'') [] [Element 1 (expand ''w:tblW'') [] []]"
  have l: "set (justification_values (?P ''left'')) = {''left''}"
    and r: "set (justification_values (?P ''right'')) = {''right''}"
    and c: "set (justification_values (?P ''center'')) = {''center''}"
    and n: "XPath_children ''w:jc'' ?Q = []"
    by (simp_all add: xml_query_defs)
  have "read_justification (?P ''left'') Map.empty ''margin_right'' = Some (PyStr ''auto'')"
    using justification_margins [of "?P ''left''" Map.empty, THEN conjunct1, THEN mp, OF l]
    by (rule conjunct2)
  moreover
  have "read_justification (?P ''right'') Map.empty ''margin_right'' = Some Inherit"
    using justification_margins [of "?P ''right''" Map.empty, THEN conjunct2, THEN conjunct1,
        THEN mp, OF r]
    by (rule conjunct2)
  moreover
  have "read_justification (?P ''center'') Map.empty ''margin_left'' = Some (PyStr ''auto'')"
    using justification_margins [of "?P ''center''" Map.empty, THEN conjunct2, THEN conjunct2,
        THEN conjunct1, THEN mp, OF c]
    by (rule conjunct1)
  moreover
  have "read_justification ?Q Map.empty ''margin_left'' = Some Inherit"
    using justification_margins [of ?Q Map.empty, THEN conjunct2, THEN conjunct2,
        THEN conjunct2, THEN mp, OF n]
    by (rule conjunct1)
  ultimately show ?thesis
    using l r c n by (intro conjI)
qed

lemma py_int_raises:
  "py_int base x = Inl e \<Longrightarrow> e = TypeError \<or> e = ValueError"
  unfolding py_int_def
  by (cases x; cases "split_sign (lstrip (the x))")
    (auto simp: Let_def split: option.splits if_splits)

lemma col_span_loop_returns: "\<exists>v. col_span_loop ys ans = Inr v"
proof (induction ys arbitrary: ans)
  case Nil
  then show ?case by simp
next
  case (Cons y ys)
  show ?case
  proof (cases "py_int 10 (get y ''w:val'')")
    case (Inl e)
    with py_int_raises [OF Inl] Cons.IH [of ans] show ?thesis by auto
  next
    case (Inr n)
    with Cons.IH [of "PyInt n"] show ?thesis by simp
  qed
qed

lemma col_span_loop_malformed:
  "\<forall>y \<in> set ys. malformed 10 (get y ''w:val'') \<Longrightarrow> col_span_loop ys ans = Inr ans"
proof (induction ys)
  case Nil
  then show ?case by simp
next
  case (Cons y ys)
  then obtain e where e: "py_int 10 (get y ''w:val'') = Inl e"
    by (auto simp: malformed_def isl_def)
  with py_int_raises [OF e] Cons show ?case by auto
qed

lemma band_size_loop_returns: "\<exists>v. band_size_loop ys ans = Inr v"
proof (induction ys arbitrary: ans)
  case Nil
  then show ?case by simp
next
  case (Cons y ys)
  show ?case
  proof (cases "py_int 10 (get y ''w:val'')")
    case (Inl e)
    with py_int_raises [OF Inl] Cons.IH [of ans] show ?thesis by auto
  next
    case (Inr n)
    with Cons.IH [of "PyInt n"] show ?thesis by simp
  qed
qed

lemma band_size_loop_malformed:
  "\<forall>y \<in> set ys. malformed 10 (get y ''w:val'') \<Longrightarrow> band_size_loop ys ans = Inr ans"
proof (induction ys)
  case Nil
  then show ?case by simp
next
  case (Cons y ys)
  then obtain e where e: "py_int 10 (get y ''w:val'') = Inl e"
    by (auto simp: malformed_def isl_def)
  with py_int_raises [OF e] Cons show ?case by auto
qed

lemma look_loop_returns: "\<exists>v. look_loop ys ans = Inr v"
proof (induction ys arbitrary: ans)
  case Nil
  then show ?case by simp
next
  case (Cons y ys)
  show ?case
  proof (cases "py_int 16 (get y ''w:val'')")
    case (Inl e)
    with py_int_raises [OF Inl] Cons.IH [of ans] show ?thesis by auto
  next
    case (Inr n)
    with Cons.IH [of "PyInt n"] show ?thesis by simp
  qed
qed

lemma look_loop_malformed:
  "\<forall>y \<in> set ys. malformed 16 (get y ''w:val'') \<Longrightarrow> look_loop ys ans = Inr ans"
proof (induction ys)
  case Nil
  then show ?case by simp
next
  case (Cons y ys)
  then obtain e where e: "py_int 16 (get y ''w:val'') = Inl e"
    by (auto simp: malformed_def isl_def)
  with py_int_raises [OF e] Cons show ?case by auto
qed

lemma read_band_size_for_returns:
  "\<exists>d. read_band_size_for x xl parent dest = Inr d
       \<and> (\<forall>p. p \<noteq> xl @ ''_band_size'' \<longrightarrow> d p = dest p)
       \<and> ((\<forall>y \<in> set (XPath_children (''w:tblStyle'' @ x @ ''BandSize'') parent).
              malformed 10 (get y ''w:val''))
            \<longrightarrow> d (xl @ ''_band_size'') = Some (PyInt 1))"
proof -
  let ?ys = "XPath_children (''w:tblStyle'' @ x @ ''BandSize'') parent"
  obtain v where v: "band_size_loop ?ys (PyInt 1) = Inr v"
    using band_size_loop_returns by blast
  have "(\<forall>y \<in> set ?ys. malformed 10 (get y ''w:val'')) \<longrightarrow> v = PyInt 1"
    using band_size_loop_malformed [of ?ys "PyInt 1"] v by auto
  with v show ?thesis
    by (auto simp: read_band_size_for_def setattr_def)
qed

text \<open>
  C8.  The readers of the band sizes, of the look flags and of the column span return
  for every node (no exception leaves them), and when the node they look for is absent
  or none of its occurrences carries a value that \<^verbatim>\<open>int\<close> accepts, the band sizes are
  1, the look flags are 0 and the column span is the inherited sentinel.
\<close>

theorem malformed_numbers_default:
  "(\<exists>d. read_band_size parent dest = Inr d
      \<and> ((\<forall>y \<in> set (XPath_children ''w:tblStyleColBandSize'' parent).
              malformed 10 (get y ''w:val'')) \<longrightarrow> d ''col_band_size'' = Some (PyInt 1))
      \<and> ((\<forall>y \<in> set (XPath_children ''w:tblStyleRowBandSize'' parent).
              malformed 10 (get y ''w:val'')) \<longrightarrow> d ''row_band_size'' = Some (PyInt 1)))
 \<and> (\<exists>d. read_look parent dest = Inr d
      \<and> ((\<forall>x \<in> set (XPath_children ''w:tblLook'' parent).
              malformed 16 (get x ''w:val'')) \<longrightarrow> d ''look'' = Some (PyInt 0)))
 \<and> (\<exists>d. read_col_span parent dest = Inr d
      \<and> ((\<forall>gs \<in> set (XPath_children ''w:gridSpan'' parent).
              malformed 10 (get gs ''w:val'')) \<longrightarrow> d ''col_span'' = Some Inherit))"
proof (intro conjI)
  from read_band_size_for_returns [of "''Col''" "''col''" parent dest] obtain d1 where
    d1: "read_band_size_for ''Col'' ''col'' parent dest = Inr d1"
      "(\<forall>y \<in> set (XPath_children ''w:tblStyleColBandSize'' parent).
           malformed 10 (get y ''w:val'')) \<longrightarrow> d1 ''col_band_size'' = Some (PyInt 1)"
    by auto
  from read_band_size_for_returns [of "''Row''" "''row''" parent d1] obtain d2 where
    d2: "read_band_size_for ''Row'' ''row'' parent d1 = Inr d2"
      "\<forall>p. p \<noteq> ''row_band_size'' \<longrightarrow> d2 p = d1 p"
      "(\<forall>y \<in> set (XPath_children ''w:tblStyleRowBandSize'' parent).
           malformed 10 (get y ''w:val'')) \<longrightarrow> d2 ''row_band_size'' = Some (PyInt 1)"
    by auto
  have "d2 ''col_band_size'' = d1 ''col_band_size''"
    using d2(2) by simp
  with d1 d2 show "\<exists>d. read_band_size parent dest = Inr d
      \<and> ((\<forall>y \<in> set (XPath_children ''w:tblStyleColBandSize'' parent).
              malformed 10 (get y ''w:val'')) \<longrightarrow> d ''col_band_size'' = Some (PyInt 1))
      \<and> ((\<forall>y \<in> set (XPath_children ''w:tblStyleRowBandSize'' parent).
              malformed 10 (get y ''w:val'')) \<longrightarrow> d ''row_band_size'' = Some (PyInt 1))"
    by (simp add: read_band_size_def)
next
  let ?xs = "XPath_children ''w:tblLook'' parent"
  obtain v where v: "look_loop ?xs (PyInt 0) = Inr v"
    using look_loop_returns by blast
  have "(\<forall>x \<in> set ?xs. malformed 16 (get x ''w:val'')) \<longrightarrow> v = PyInt 0"
    using look_loop_malformed [of ?xs "PyInt 0"] v by auto
  with v show "\<exists>d. read_look parent dest = Inr d
      \<and> ((\<forall>x \<in> set ?xs. malformed 16 (get x ''w:val'')) \<longrightarrow> d ''look'' = Some (PyInt 0))"
    by (auto simp: read_look_def setattr_def)
next
  let ?gs = "XPath_children ''w:gridSpan'' parent"
  obtain v where v: "col_span_loop ?gs Inherit = Inr v"
    using col_span_loop_returns by blast
  have "(\<forall>g \<in> set ?gs. malformed 10 (get g ''w:val'')) \<longrightarrow> v = Inherit"
    using col_span_loop_malformed [of ?gs Inherit] v by auto
  with v show "\<exists>d. read_col_span parent dest = Inr d
      \<and> ((\<forall>g \<in> set ?gs. malformed 10 (get g ''w:val'')) \<longrightarrow> d ''col_span'' = Some Inherit)"
    by (auto simp: read_col_span_def setattr_def)
qed

lemmas py_int_defs =
  malformed_def py_int_def lstrip_def rstrip_def split_sign_def strip_0x_def py_isspace_def
  digit_value_def

theorem malformed_numbers_default_witness:
  "list_all (\<lambda>y. malformed 10 (get y ''w:val''))
     (XPath_children ''w:tblStyleColBandSize'' example_malformed)
 \<and> list_all (\<lambda>y. malformed 10 (get y ''w:val''))
     (XPath_children ''w:tblStyleRowBandSize'' example_malformed)
 \<and> list_all (\<lambda>y. malformed 16 (get y ''w:val''))
     (XPath_children ''w:tblLook'' example_malformed)
 \<and> list_all (\<lambda>y. malformed 10 (get y ''w:val''))
     (XPath_children ''w:gridSpan'' example_malformed)
 \<and> (\<exists>d. read_band_size example_malformed Map.empty = Inr d
      \<and> d ''col_band_size'' = Some (PyInt 1) \<and> d ''row_band_size'' = Some (PyInt 1))
 \<and> (\<exists>d. read_look example_malformed Map.empty = Inr d \<and> d ''look'' = Some (PyInt 0))
 \<and> (\<exists>d. read_col_span example_malformed Map.empty = Inr d
      \<and> d ''col_span'' = Some Inherit)"
proof -
  let ?P = example_malformed
  have c: "list_all (\<lambda>y. malformed 10 (get y ''w:val''))
             (XPath_children ''w:tblStyleColBandSize'' ?P)"
    and r: "list_all (\<lambda>y. malformed 10 (get y ''w:val''))
             (XPath_children ''w:tblStyleRowBandSize'' ?P)"
    and k: "list_all (\<lambda>y. malformed 16 (get y ''w:val'')) (XPath_children ''w:tblLook'' ?P)"
    and g: "list_all (\<lambda>y. malformed 10 (get y ''w:val'')) (XPath_children ''w:gridSpan'' ?P)"
    by (simp_all add: example_malformed_def xml_query_defs py_int_defs)
  note m = malformed_numbers_default [of ?P Map.empty]
  from m [THEN conjunct1] c r
  have 1: "\<exists>d. read_band_size ?P Map.empty = Inr d
      \<and> d ''col_band_size'' = Some (PyInt 1) \<and> d ''row_band_size'' = Some (PyInt 1)"
    unfolding list_all_iff by blast
  from m [THEN conjunct2, THEN conjunct1] k
  have 2: "\<exists>d. read_look ?P Map.empty = Inr d \<and> d ''look'' = Some (PyInt 0)"
    unfolding list_all_iff by blast
  from m [THEN conjunct2, THEN conjunct2] g
  have 3: "\<exists>d. read_col_span ?P Map.empty = Inr d \<and> d ''col_span'' = Some Inherit"
    unfolding list_all_iff by blast
  from c r k g 1 2 3 show ?thesis by (intro conjI)
qed

text \<open>
  C9.  \<^verbatim>\<open>RowStyle()\<close> without a node sets each of \<^verbatim>\<open>height\<close>, \<^verbatim>\<open>cantSplit\<close>,
  \<^verbatim>\<open>hidden\<close> and \<^verbatim>\<open>spacing\<close> to the inherited sentinel.  \<^verbatim>\<open>RowStyle(node)\<close>
  populates none of them: the instance has no attribute at all, so that reading one
  of the four raises \<^verbatim>\<open>AttributeError\<close>; they are absent, not inherited.
\<close>

theorem RowStyle_init_properties:
  "list_all (\<lambda>p. RowStyle_init None p = Some Inherit) RowStyle_all_properties
   \<and> RowStyle_all_properties = [''height'', ''cantSplit'', ''hidden'', ''spacing'']
   \<and> RowStyle_init (Some node) = Map.empty
   \<and> list_all (\<lambda>p. getattr (RowStyle_init (Some node)) p = Inl AttributeError)
        RowStyle_all_properties"
  by (simp add: RowStyle_init_def RowStyle_all_properties_def setattr_def getattr_def)

theorem RowStyle_init_node_not_inherited:
  "getattr (RowStyle_init (Some (Element 0 (expand ''w:trPr'') []
      [Element 1 (expand ''w:trHeight'') [(expand ''w:val'', ''300'')] []]))) ''height''
     = Inl AttributeError
   \<and> RowStyle_init (Some (Element 0 (expand ''w:trPr'') []
      [Element 1 (expand ''w:trHeight'') [(expand ''w:val'', ''300'')] []])) ''height''
     \<noteq> Some Inherit"
  by (simp add: RowStyle_init_def getattr_def)

section \<open>Registration\<close>

lemma od_setitem_keys:
  "map fst (od_setitem al k v) = (if k \<in> fst ` set al then map fst al else map fst al @ [k])"
  by (induction al) (force split: if_splits)+

lemma map_other_keys:
  "k \<notin> fst ` set al \<Longrightarrow> map (\<lambda>(k', v'). if k' = k then (k', v) else (k', v')) al = al"
  by (induction al) auto

lemma od_setitem_present:
  "k \<in> fst ` set al \<Longrightarrow> distinct (map fst al) \<Longrightarrow>
   od_setitem al k v = map (\<lambda>(k', v'). if k' = k then (k', v) else (k', v')) al"
proof (induction al)
  case Nil
  then show ?case by simp
next
  case (Cons kv al)
  obtain k' v' where kv: "kv = (k', v')" by (cases kv)
  show ?case
  proof (cases "k' = k")
    case True
    with Cons.prems kv have "k \<notin> fst ` set al" by auto
    from map_other_keys [OF this] True kv show ?thesis by simp
  next
    case False
    with Cons kv show ?thesis by auto
  qed
qed

lemma od_setitem_absent:
  "k \<notin> fst ` set al \<Longrightarrow> od_setitem al k v = al @ [(k, v)]"
  by (induction al) auto

lemma od_setitem_values:
  "set (od_setitem al k v) \<subseteq> set al \<union> {(k, v)}"
  by (induction al) (auto split: if_splits)

lemma od_setitem_member: "(k, v) \<in> set (od_setitem al k v)"
  by (induction al) (auto split: if_splits)

text \<open>What holds of every state reached from the empty one: the addresses in the
  dictionary are allocated and pairwise different, the keys are pairwise different, and
  the cursor is the address stored under the node registered last.\<close>

definition reached :: "('k, 'b) tables_call list \<Rightarrow> ('k, 'b) Tables \<Rightarrow> bool" where
  "reached cs self =
     (list_all (\<lambda>(k, a). a < next_list self) (tables self)
      \<and> distinct (map snd (tables self))
      \<and> distinct (map fst (tables self))
      \<and> (case last_registered cs of
            None \<Rightarrow> current_table self = None \<and> tables self = []
          | Some tbl \<Rightarrow> (case current_table self of None \<Rightarrow> False
                           | Some a \<Rightarrow> (tbl, a) \<in> set (tables self))))"

lemma calls_snoc:
  "do_calls self (cs @ [c]) = (case do_calls self cs of Inl e \<Rightarrow> Inl e | Inr s \<Rightarrow> do_call s c)"
  by (induction cs arbitrary: self) (auto split: sum.splits)

lemma last_registered_snoc:
  "last_registered (cs @ [c]) =
     (case c of Register tbl \<Rightarrow> Some tbl | Add p \<Rightarrow> last_registered cs)"
  by (induction cs) (auto split: tables_call.splits option.splits)

lemma distinct_od_setitem_snd:
  assumes "distinct (map snd al)" and "\<forall>(k', a') \<in> set al. a' \<noteq> a"
  shows "distinct (map snd (od_setitem al k a))"
  using assms
proof (induction al)
  case Nil
  then show ?case by simp
next
  case (Cons kv al)
  obtain k' v' where kv: "kv = (k', v')" by (cases kv)
  from Cons.prems kv have v': "v' \<noteq> a" "v' \<notin> snd ` set al" and d: "distinct (map snd al)"
    and n: "\<forall>(k', a') \<in> set al. a' \<noteq> a"
    by auto
  have fresh: "a \<notin> snd ` set al" using n by auto
  show ?case
  proof (cases "k' = k")
    case True
    with kv d fresh show ?thesis by simp
  next
    case False
    have "snd ` set (od_setitem al k a) \<subseteq> snd ` set al \<union> {a}"
      using od_setitem_values [of al k a] by force
    with v' have "v' \<notin> snd ` set (od_setitem al k a)" by auto
    with False kv Cons.IH [OF d n] show ?thesis by simp
  qed
qed

lemma eq_value_imp_eq_key:
  "distinct (map snd al) \<Longrightarrow> (k1, a) \<in> set al \<Longrightarrow> (k2, a) \<in> set al \<Longrightarrow> k1 = k2"
  by (induction al) force+

lemma reached_register:
  assumes "reached cs self"
  shows "reached (cs @ [Register tbl]) (register self tbl)"
proof -
  let ?a = "next_list self"
  from assms have lt: "\<forall>(k, a) \<in> set (tables self). a < ?a"
    and ds: "distinct (map snd (tables self))" and dk: "distinct (map fst (tables self))"
    by (auto simp: reached_def list_all_iff)
  have "\<forall>(k, a) \<in> set (od_setitem (tables self) tbl ?a). a < Suc ?a"
    using lt od_setitem_values [of "tables self" tbl ?a] by fastforce
  moreover have "distinct (map snd (od_setitem (tables self) tbl ?a))"
    using ds lt by (intro distinct_od_setitem_snd) auto
  moreover have "distinct (map fst (od_setitem (tables self) tbl ?a))"
    using dk by (auto simp: od_setitem_keys)
  ultimately show ?thesis
    by (simp add: reached_def register_def Let_def list_all_iff last_registered_snoc
        od_setitem_member)
qed

lemma reached_add:
  assumes "reached cs self" and "add self p = Inr self'"
  shows "reached (cs @ [Add p]) self'"
  using assms
  by (auto simp: reached_def add_def last_registered_snoc split: option.splits)

lemma reached_calls:
  "do_calls Tables_init cs = Inr self \<Longrightarrow> reached cs self"
proof (induction cs arbitrary: self rule: rev_induct)
  case Nil
  then show ?case by (auto simp: reached_def Tables_init_def)
next
  case (snoc c cs)
  from snoc.prems obtain s where s: "do_calls Tables_init cs = Inr s" and c: "do_call s c = Inr self"
    by (auto simp: calls_snoc split: sum.splits)
  from snoc.IH [OF s] have r: "reached cs s" .
  show ?case
  proof (cases c)
    case (Register tbl)
    with c r reached_register [of cs s tbl] show ?thesis by simp
  next
    case (Add p)
    with c r reached_add [of cs s p self] show ?thesis by simp
  qed
qed

lemma iteritems_add:
  assumes "reached cs self" and "last_registered cs = Some tbl"
  shows "\<exists>self'. add self p = Inr self'
           \<and> iteritems self' =
               map (\<lambda>(k, blocks). if k = tbl then (k, blocks @ [p]) else (k, blocks))
                 (iteritems self)"
proof -
  from assms obtain a where a: "current_table self = Some a" "(tbl, a) \<in> set (tables self)"
    by (auto simp: reached_def split: option.splits)
  from assms have ds: "distinct (map snd (tables self))"
    and dk: "distinct (map fst (tables self))"
    by (auto simp: reached_def)
  let ?s = "self\<lparr>lists := (lists self)(a := lists self a @ [p])\<rparr>"
  have "\<forall>(k, b) \<in> set (tables self). (b = a) = (k = tbl)"
    using a(2) eq_key_imp_eq_value [OF dk] eq_value_imp_eq_key [OF ds] by blast
  then have "iteritems ?s =
      map (\<lambda>(k, blocks). if k = tbl then (k, blocks @ [p]) else (k, blocks)) (iteritems self)"
    by (auto simp: iteritems_def)
  with a(1) show ?thesis by (simp add: add_def)
qed

lemma iteritems_register:
  assumes "reached cs self"
  shows "iteritems (register self tbl) =
           (if tbl \<in> fst ` set (iteritems self)
            then map (\<lambda>(k, blocks). if k = tbl then (k, []) else (k, blocks)) (iteritems self)
            else iteritems self @ [(tbl, [])])"
proof -
  let ?a = "next_list self"
  from assms have lt: "\<forall>(k, a) \<in> set (tables self). a < ?a"
    and dk: "distinct (map fst (tables self))"
    by (auto simp: reached_def list_all_iff)
  have keys: "fst ` set (iteritems self) = fst ` set (tables self)"
    by (force simp: iteritems_def)
  show ?thesis
  proof (cases "tbl \<in> fst ` set (tables self)")
    case True
    from od_setitem_present [OF True dk]
    have "od_setitem (tables self) tbl ?a =
            map (\<lambda>(k', v'). if k' = tbl then (k', ?a) else (k', v')) (tables self)" .
    then show ?thesis
      using True keys lt by (auto simp: register_def iteritems_def Let_def)
  next
    case False
    from od_setitem_absent [OF False]
    have "od_setitem (tables self) tbl ?a = tables self @ [(tbl, ?a)]" .
    then show ?thesis
      using False keys lt by (auto simp: register_def iteritems_def Let_def)
  qed
qed

lemma last_registered_Register: "last_registered (Register tbl # cs) \<noteq> None"
  by (simp split: option.splits)

lemma calls_return:
  "add_after_register cs \<Longrightarrow> \<exists>self. do_calls Tables_init cs = Inr self"
proof (induction cs rule: rev_induct)
  case Nil
  then show ?case by simp
next
  case (snoc c cs)
  from snoc.prems have "add_after_register cs"
    by (cases cs) (auto simp: add_after_register_def split: tables_call.splits)
  from snoc.IH [OF this] obtain s where s: "do_calls Tables_init cs = Inr s" by blast
  show ?case
  proof (cases c)
    case (Register tbl)
    with s show ?thesis by (simp add: calls_snoc)
  next
    case (Add p)
    with snoc.prems obtain t cs' where "cs = Register t # cs'"
      by (cases cs) (auto simp: add_after_register_def split: tables_call.splits)
    then obtain tbl where "last_registered cs = Some tbl"
      using last_registered_Register [of t cs'] by auto
    from iteritems_add [OF reached_calls [OF s] this, of p] Add s show ?thesis
      by (auto simp: calls_snoc)
  qed
qed

text \<open>
  C10.  Every sequence of \<^verbatim>\<open>register\<close>/\<^verbatim>\<open>add\<close> calls in which no \<^verbatim>\<open>add\<close>
  precedes the first \<^verbatim>\<open>register\<close> runs through, and in the state it reaches:
  \<^verbatim>\<open>add(p)\<close> appends \<open>p\<close> to the block list of the table registered last and changes
  no other list; \<^verbatim>\<open>register\<close> of a node that is already a key replaces its list by
  the empty list and leaves the order of the nodes and the other lists as they are;
  \<^verbatim>\<open>register\<close> of a new node puts it last with the empty list.
\<close>

theorem register_add_order:
  assumes "add_after_register cs"
  shows "\<exists>self. do_calls Tables_init cs = Inr self
     \<and> distinct (map fst (iteritems self))
     \<and> (\<forall>tbl p. last_registered cs = Some tbl \<longrightarrow>
           tbl \<in> fst ` set (iteritems self)
         \<and> (\<exists>self'. add self p = Inr self'
              \<and> iteritems self' =
                  map (\<lambda>(k, blocks). if k = tbl then (k, blocks @ [p]) else (k, blocks))
                    (iteritems self)))
     \<and> (\<forall>tbl. tbl \<in> fst ` set (iteritems self) \<longrightarrow>
           iteritems (register self tbl) =
             map (\<lambda>(k, blocks). if k = tbl then (k, []) else (k, blocks)) (iteritems self)
         \<and> map fst (iteritems (register self tbl)) = map fst (iteritems self))
     \<and> (\<forall>tbl. tbl \<notin> fst ` set (iteritems self) \<longrightarrow>
           iteritems (register self tbl) = iteritems self @ [(tbl, [])])"
proof -
  from calls_return [OF assms] obtain self where s: "do_calls Tables_init cs = Inr self"
    by blast
  note r = reached_calls [OF s]
  have keys: "map fst (iteritems self) = map fst (tables self)"
    by (simp add: iteritems_def case_prod_unfold comp_def)
  have 1: "distinct (map fst (iteritems self))"
    using r keys by (simp add: reached_def)
  have 2: "tbl \<in> fst ` set (iteritems self)" if "last_registered cs = Some tbl" for tbl
  proof -
    from r that have "tbl \<in> fst ` set (tables self)"
      by (force simp: reached_def split: option.splits)
    then show ?thesis using keys by (metis list.set_map)
  qed
  have 3: "map fst (map (\<lambda>(k, blocks). if k = tbl then (k, []) else (k, blocks)) al) = map fst al"
    for tbl :: 'a and al :: "('a \<times> 'b list) list"
    by (induction al) auto
  show ?thesis
    using s 1 2 3 iteritems_add [OF r] iteritems_register [OF r] by auto
qed

theorem register_add_order_witness:
  "add_after_register example_calls
   \<and> (\<exists>self. do_calls Tables_init example_calls = Inr self
        \<and> iteritems self = [(1, [10, 11]), (2, [20])]
        \<and> (\<exists>self'. add self 21 = Inr self' \<and> iteritems self' = [(1, [10, 11]), (2, [20, 21])])
        \<and> iteritems (register self 1) = [(1, []), (2, [20])]
        \<and> iteritems (register self 3) = [(1, [10, 11]), (2, [20]), (3, [])])"
proof -
  have h: "add_after_register example_calls"
    by (simp add: add_after_register_def example_calls_def)
  have l: "last_registered example_calls = Some 2"
    by (simp add: example_calls_def)
  from register_add_order [OF h] obtain self where
    s: "do_calls Tables_init example_calls = Inr self"
    and a: "\<forall>tbl p. last_registered example_calls = Some tbl \<longrightarrow>
           tbl \<in> fst ` set (iteritems self)
         \<and> (\<exists>self'. add self p = Inr self'
              \<and> iteritems self' =
                  map (\<lambda>(k, blocks). if k = tbl then (k, blocks @ [p]) else (k, blocks))
                    (iteritems self))"
    and p: "\<forall>tbl. tbl \<in> fst ` set (iteritems self) \<longrightarrow>
           iteritems (register self tbl) =
             map (\<lambda>(k, blocks). if k = tbl then (k, []) else (k, blocks)) (iteritems self)
         \<and> map fst (iteritems (register self tbl)) = map fst (iteritems self)"
    and n: "\<forall>tbl. tbl \<notin> fst ` set (iteritems self) \<longrightarrow>
           iteritems (register self tbl) = iteritems self @ [(tbl, [])]"
    by blast
  have i: "iteritems self = [(1, [10, 11]), (2, [20])]"
    using s by (auto simp: example_calls_def Tables_init_def register_def add_def iteritems_def
        Let_def)
  from a l obtain self' where
    "add self 21 = Inr self'"
    "iteritems self' = map (\<lambda>(k, blocks). if k = 2 then (k, blocks @ [21]) else (k, blocks))
                    (iteritems self)"
    by blast
  then have 1: "\<exists>self'. add self 21 = Inr self' \<and> iteritems self' = [(1, [10, 11]), (2, [20, 21])]"
    using i by simp
  have 2: "iteritems (register self 1) = [(1, []), (2, [20])]"
    using p [rule_format, of 1] i by simp
  have 3: "iteritems (register self 3) = [(1, [10, 11]), (2, [20]), (3, [])]"
    using n [rule_format, of 3] i by simp
  from h s i 1 2 3 show ?thesis by blast
qed













lemmas float_defs =
  true_divide_def floor_log_def floor_log_near_def scale_def round_half_even_def format_3g_def
  strip_zeros_def digit_char_def double_exponent_def make_double_def round_to_double_def
  exponent_style_def fixed_style_def general_style_def three_digits_def ndigits.simps
  decimal.simps

lemma magnitude_caught:
  "(case py_int 10 x of Inr n \<Rightarrow> Inr n
    | Inl e \<Rightarrow> if e = TypeError \<or> e = ValueError then Inr 0 else Inl e)
   = Inr (case py_int 10 x of Inr n \<Rightarrow> n | Inl e \<Rightarrow> 0)"
  using py_int_raises [of 10 x] by (cases "py_int 10 x") auto











text \<open>
  C6.  A width node of unit type \<^verbatim>\<open>nil\<close> resolves to \<^verbatim>\<open>0\<close>; one of unit type
  \<^verbatim>\<open>auto\<close>, or without a unit type, resolves to \<^verbatim>\<open>auto\<close>, whatever its magnitude;
  a missing magnitude is read as 0, so that with the unit type \<^verbatim>\<open>dxa\<close> it resolves
  to \<^verbatim>\<open>0pt\<close>; and when the parent has no width node, \<^verbatim>\<open>read_width\<close> sets the width of
  the destination to the inherited sentinel.
\<close>

theorem width_nil_auto_absent:
  "(get_default elem ''w:type'' ''auto'' = ''nil'' \<longrightarrow>
      private_read_width elem = Inr (PyStr ''0''))
 \<and> (get_default elem ''w:type'' ''auto'' = ''auto'' \<longrightarrow>
      private_read_width elem = Inr (PyStr ''auto''))
 \<and> (get elem ''w:type'' = None \<longrightarrow> private_read_width elem = Inr (PyStr ''auto''))
 \<and> (get elem ''w:w'' = None \<and> get_default elem ''w:type'' ''auto'' = ''dxa'' \<longrightarrow>
      private_read_width elem = Inr (PyStr ''0pt''))
 \<and> (XPath_children ''w:tblW'' parent = [] \<longrightarrow>
      read_width parent dest = Inr (setattr dest ''width'' Inherit))"
proof -
  have "get elem ''w:w'' = None \<Longrightarrow> get_default elem ''w:type'' ''auto'' = ''dxa'' \<Longrightarrow>
      private_read_width elem = Inr (PyStr ''0pt'')"
    by (simp add: private_read_width_def py_int_def true_divide_def format_3g_def)
  moreover have "get elem ''w:type'' = None \<Longrightarrow> get_default elem ''w:type'' ''auto'' = ''auto''"
    by (simp add: get_default_def)
  ultimately show ?thesis
    unfolding private_read_width_def magnitude_caught
    by (simp add: read_width_def)
qed

theorem width_nil_auto_absent_witness:
  "get_default example_nil ''w:type'' ''auto'' = ''nil''
   \<and> private_read_width example_nil = Inr (PyStr ''0'')
   \<and> get_default example_auto ''w:type'' ''auto'' = ''auto''
   \<and> private_read_width example_auto = Inr (PyStr ''auto'')
   \<and> get example_untyped ''w:type'' = None
   \<and> private_read_width example_untyped = Inr (PyStr ''auto'')
   \<and> get example_no_magnitude ''w:w'' = None
   \<and> get_default example_no_magnitude ''w:type'' ''auto'' = ''dxa''
   \<and> private_read_width example_no_magnitude = Inr (PyStr ''0pt'')
   \<and> XPath_children ''w:tblW'' example_padding = []
   \<and> read_width example_padding Map.empty = Inr [''width'' \<mapsto> Inherit]"
proof -
  have 1: "get_default example_nil ''w:type'' ''auto'' = ''nil''"
    and 2: "get_default example_auto ''w:type'' ''auto'' = ''auto''"
    and 3: "get example_untyped ''w:type'' = None"
    and 4: "get example_no_magnitude ''w:w'' = None"
    and 5: "get_default example_no_magnitude ''w:type'' ''auto'' = ''dxa''"
    and 6: "XPath_children ''w:tblW'' example_padding = []"
    by (simp_all add: example_nil_def example_auto_def example_untyped_def
        example_no_magnitude_def example_padding_def example_left_edge_def xml_query_defs)
  note w = width_nil_auto_absent
  have a: "private_read_width example_nil = Inr (PyStr ''0'')"
    using w [of example_nil, THEN conjunct1] 1 by blast
  have b: "private_read_width example_auto = Inr (PyStr ''auto'')"
    using w [of example_auto, THEN conjunct2, THEN conjunct1] 2 by blast
  have c: "private_read_width example_untyped = Inr (PyStr ''auto'')"
    using w [of example_untyped, THEN conjunct2, THEN conjunct2, THEN conjunct1] 3 by blast
  have d: "private_read_width example_no_magnitude = Inr (PyStr ''0pt'')"
    using w [of example_no_magnitude, THEN conjunct2, THEN conjunct2, THEN conjunct2,
        THEN conjunct1] 4 5 by blast
  have e: "read_width example_padding Map.empty = Inr [''width'' \<mapsto> Inherit]"
    using w [of _ example_padding Map.empty, THEN conjunct2, THEN conjunct2, THEN conjunct2,
        THEN conjunct2] 6 by (simp add: setattr_def)
  from 1 a 2 b 3 c 4 5 d 6 e show ?thesis by (intro conjI)
qed

text \<open>The counterexample to C6 as stated: a width node of unit type \<^verbatim>\<open>dxa\<close> without a
  magnitude does not resolve to \<^verbatim>\<open>auto\<close>.\<close>

theorem missing_magnitude_not_auto:
  "get example_no_magnitude ''w:w'' = None
   \<and> private_read_width example_no_magnitude = Inr (PyStr ''0pt'')
   \<and> private_read_width example_no_magnitude \<noteq> Inr (PyStr ''auto'')"
  by (simp add: example_no_magnitude_def private_read_width_def xml_query_defs py_int_def
      true_divide_def format_3g_def)

section \<open>The padding reader\<close>

lemma padding_edge_loop_fast:
  "padding_edge_loop x edges f = Inr f' \<Longrightarrow> fast_locals f' = fast_locals f"
  by (induction edges arbitrary: f)
    (auto simp: locals_store_def locals_call_def split: sum.splits)

lemma padding_x_loop_fast:
  "padding_x_loop xs mar f = Inr f' \<Longrightarrow> fast_locals f' = fast_locals f"
  by (induction xs arbitrary: f) (auto split: sum.splits dest: padding_edge_loop_fast)

lemma padding_mar_loop_fast:
  "padding_mar_loop mars f = Inr f' \<Longrightarrow> fast_locals f' = fast_locals f"
proof (induction mars arbitrary: f)
  case Nil
  then show ?case by simp
next
  case (Cons mar mars)
  from Cons.prems obtain g where
    g: "padding_x_loop [''left'', ''top'', ''right'', ''bottom''] mar f = Inr g"
    and r: "padding_mar_loop mars g = Inr f'"
    by (auto split: sum.splits simp del: padding_x_loop.simps)
  from Cons.IH [OF r] padding_x_loop_fast [OF g] show ?case by simp
qed

text \<open>Whatever the edges under the padding container are, the four properties are set
  from the variables, which are never assigned.\<close>

lemma read_padding_inherit:
  assumes "read_padding parent dest = Inr d"
  shows "d ''cell_padding_left'' = Some Inherit \<and> d ''cell_padding_top'' = Some Inherit
       \<and> d ''cell_padding_right'' = Some Inherit \<and> d ''cell_padding_bottom'' = Some Inherit"
proof -
  from assms obtain f where
    f: "padding_mar_loop (XPath_children (''w:'' @ padding_name parent) parent) padding_frame
          = Inr f"
    and s: "padding_setattr_loop [''left'', ''top'', ''right'', ''bottom''] f dest = Inr d"
    by (auto simp: read_padding_def split: sum.splits)
  from padding_mar_loop_fast [OF f] have "fast_locals f = fast_locals padding_frame" .
  with s show ?thesis
    by (auto simp: padding_frame_def locals_call_def setattr_def map_add_def
        split: option.splits)
qed

text \<open>
  C4 on a table property container whose padding container has a left edge of 100
  twentieths of a point: the width resolver gives \<^verbatim>\<open>5pt\<close> for the edge, and
  \<^verbatim>\<open>read_padding\<close> sets \<^verbatim>\<open>cell_padding_left\<close> to the inherited sentinel.
\<close>

theorem read_padding_drops_edge:
  "XPath_children ''w:left'' (hd (XPath_children ''w:tblCellMar'' example_padding))
     = [example_left_edge]
   \<and> private_read_width example_left_edge = Inr (PyStr ''5pt'')
   \<and> read_padding example_padding Map.empty =
       Inr [''cell_padding_left'' \<mapsto> Inherit, ''cell_padding_top'' \<mapsto> Inherit,
            ''cell_padding_right'' \<mapsto> Inherit, ''cell_padding_bottom'' \<mapsto> Inherit]"
proof -
  have 1: "XPath_children ''w:left'' (hd (XPath_children ''w:tblCellMar'' example_padding))
     = [example_left_edge]"
    by (simp add: example_padding_def example_left_edge_def xml_query_defs)
  have w: "py_int 10 (get example_left_edge ''w:w'') = Inr 100"
    and t: "get_default example_left_edge ''w:type'' ''auto'' = ''dxa''"
    by (simp_all add: example_left_edge_def xml_query_defs py_int_defs)
  have q: "true_divide 100 20
      = Inr \<lparr>negative = False, numer = 5629499534213120, denom = 1125899906842624\<rparr>"
    by (simp add: float_defs)
  have "format_3g \<lparr>negative = False, numer = 5629499534213120, denom = 1125899906842624\<rparr>
      = ''5''"
    by (simp add: float_defs)
  with w t q have 2: "private_read_width example_left_edge = Inr (PyStr ''5pt'')"
    by (simp add: private_read_width_def)
  have n: "padding_name example_padding = ''tblCellMar''"
    by (simp add: padding_name_def example_padding_def expand_def w_namespace_def suffix_def)
  have c: "XPath_children ''w:tblCellMar'' example_padding
      = [Element 11 (expand ''w:tblCellMar'') [] [example_left_edge]]"
    by (simp add: example_padding_def example_left_edge_def xml_query_defs)
  have e: "XPath_children ''w:left'' (Element 11 (expand ''w:tblCellMar'') [] [example_left_edge])
      = [example_left_edge]"
    "XPath_children ''w:top'' (Element 11 (expand ''w:tblCellMar'') [] [example_left_edge]) = []"
    "XPath_children ''w:right'' (Element 11 (expand ''w:tblCellMar'') [] [example_left_edge]) = []"
    "XPath_children ''w:bottom'' (Element 11 (expand ''w:tblCellMar'') [] [example_left_edge]) = []"
    by (simp_all add: example_left_edge_def xml_query_defs)
  have 3: "read_padding example_padding Map.empty =
       Inr [''cell_padding_left'' \<mapsto> Inherit, ''cell_padding_top'' \<mapsto> Inherit,
            ''cell_padding_right'' \<mapsto> Inherit, ''cell_padding_bottom'' \<mapsto> Inherit]"
    by (simp add: read_padding_def n c e 2 padding_frame_def locals_store_def locals_call_def
        setattr_def map_add_def)
  from 1 2 3 show ?thesis by (intro conjI)
qed

section \<open>Assembly\<close>

lemma unlink_fields:
  "fresh (unlink t x) = fresh t"
  "etag (elems (unlink t x) a) = etag (elems t a)"
  "up (elems (unlink t x) a) = (if a = x then None else up (elems t a))"
  "kids (elems (unlink t x) a) =
     (if up (elems t x) = Some a then remove1 x (kids (elems t a)) else kids (elems t a))"
  by (auto simp: unlink_def split: option.splits)

lemma link_fields:
  "fresh (link t p ks c) = fresh t"
  "etag (elems (link t p ks c) a) = etag (elems t a)"
  "up (elems (link t p ks c) a) = (if a = c then Some p else up (elems t a))"
  "kids (elems (link t p ks c) a) = (if a = p then ks else kids (elems t a))"
  by (auto simp: link_def)

lemma append_fields:
  assumes "append t p c = Inr t'"
  shows "fresh t' = fresh t"
    and "etag (elems t' a) = etag (elems t a)"
    and "up (elems t' a) = (if a = c then Some p else up (elems t a))"
    and "kids (elems t' a) =
          (if a = p then
             (if up (elems t c) = Some p then remove1 c (kids (elems t p)) else kids (elems t p))
               @ [c]
           else if up (elems t c) = Some a then remove1 c (kids (elems t a))
           else kids (elems t a))"
  using assms
  by (auto simp: append_def link_fields unlink_fields split: if_splits)

lemma insert_at_fields:
  assumes "insert_at t p i c = Inr t'"
  shows "fresh t' = fresh t"
    and "etag (elems t' a) = etag (elems t a)"
    and "up (elems t' a) = (if a = c then Some p else up (elems t a))"
    and "kids (elems t' a) =
          (if a = p then
             take i (if up (elems t c) = Some p then remove1 c (kids (elems t p))
                     else kids (elems t p))
             @ [c]
             @ drop i (if up (elems t c) = Some p then remove1 c (kids (elems t p))
                       else kids (elems t p))
           else if up (elems t c) = Some a then remove1 c (kids (elems t a))
           else kids (elems t a))"
  using assms
  by (auto simp: insert_at_def link_fields unlink_fields split: if_splits)

lemma set_tail_fields:
  "fresh (set_tail t x s) = fresh t"
  "etag (elems (set_tail t x s) a) = etag (elems t a)"
  "up (elems (set_tail t x s) a) = up (elems t a)"
  "kids (elems (set_tail t x s) a) = kids (elems t a)"
  by (auto simp: set_tail_def)

lemma set_last_tail_fields:
  "fresh (set_last_tail t x s) = fresh t"
  "etag (elems (set_last_tail t x s) a) = etag (elems t a)"
  "up (elems (set_last_tail t x s) a) = up (elems t a)"
  "kids (elems (set_last_tail t x s) a) = kids (elems t a)"
  by (auto simp: set_last_tail_def set_tail_fields)

lemma make_element_fields:
  assumes "make_element tg txt t = (x, t')"
  shows "x = fresh t" and "fresh t' = Suc (fresh t)"
    and "etag (elems t' a) = (if a = fresh t then tg else etag (elems t a))"
    and "up (elems t' a) = (if a = fresh t then None else up (elems t a))"
    and "kids (elems t' a) = (if a = fresh t then [] else kids (elems t a))"
  using assms by (auto simp: make_element_def)

lemma steady_refl: "steady f0 S t t"
  by (simp add: steady_def)

lemma steady_trans:
  assumes a: "steady f0 S t t1" and b: "steady f0 S t1 t2"
  shows "steady f0 S t t2"
proof -
  from a have a1: "fresh t \<le> fresh t1"
    and a2: "\<And>x. x < fresh t \<Longrightarrow> etag (elems t1 x) = etag (elems t x)"
    and a3: "\<And>x. f0 \<le> x \<Longrightarrow> x < fresh t \<Longrightarrow> etag (elems t x) \<noteq> ''td'' \<Longrightarrow> x \<notin> S
              \<Longrightarrow> kids (elems t1 x) = kids (elems t x)"
    by (simp_all add: steady_def)
  from b have b1: "fresh t1 \<le> fresh t2"
    and b2: "\<And>x. x < fresh t1 \<Longrightarrow> etag (elems t2 x) = etag (elems t1 x)"
    and b3: "\<And>x. f0 \<le> x \<Longrightarrow> x < fresh t1 \<Longrightarrow> etag (elems t1 x) \<noteq> ''td'' \<Longrightarrow> x \<notin> S
              \<Longrightarrow> kids (elems t2 x) = kids (elems t1 x)"
    by (simp_all add: steady_def)
  have 1: "fresh t \<le> fresh t2" using a1 b1 by simp
  have 2: "etag (elems t2 x) = etag (elems t x)" if "x < fresh t" for x
    using that a1 a2 [of x] b2 [of x] by simp
  have 3: "kids (elems t2 x) = kids (elems t x)"
    if "f0 \<le> x" "x < fresh t" "etag (elems t x) \<noteq> ''td''" "x \<notin> S" for x
    using that a1 a2 [of x] a3 [of x] b3 [of x] by simp
  from 1 2 3 show ?thesis by (simp add: steady_def)
qed

lemma steady_mono: "steady f0 S t t' \<Longrightarrow> S \<subseteq> S' \<Longrightarrow> steady f0 S' t t'"
  unfolding steady_def by blast

lemma append_block:
  assumes inv: "blocks_inv f0 rmap t"
    and td: "f0 \<le> td" "td < fresh t" "etag (elems t td) = ''td''"
    and b: "block \<in> ran rmap"
    and app: "append t td block = Inr t'"
  shows "blocks_inv f0 rmap t'" and "fresh t' = fresh t"
    and "\<And>a. etag (elems t' a) = etag (elems t a)"
    and "\<And>a. f0 \<le> a \<Longrightarrow> etag (elems t a) \<noteq> ''td'' \<Longrightarrow> kids (elems t' a) = kids (elems t a)"
proof -
  note f = append_fields [OF app]
  show fr: "fresh t' = fresh t" by (rule f(1))
  show tg: "\<And>a. etag (elems t' a) = etag (elems t a)" by (rule f(2))
  from inv have i0: "f0 \<le> fresh t"
    and i1: "\<And>x. x \<in> ran rmap \<Longrightarrow> x < f0"
    and i2: "\<And>x y. x \<in> ran rmap \<Longrightarrow> up (elems t x) = Some y \<Longrightarrow>
               y < fresh t \<and> (f0 \<le> y \<longrightarrow> etag (elems t y) = ''td'')"
    by (auto simp: blocks_inv_def)
  show "blocks_inv f0 rmap t'"
    unfolding blocks_inv_def
  proof (intro conjI ballI allI impI)
    show "f0 \<le> fresh t'" using i0 fr by simp
  next
    fix x assume "x \<in> ran rmap" then show "x < f0" by (rule i1)
  next
    fix x y assume x: "x \<in> ran rmap" and y: "up (elems t' x) = Some y"
    show "y < fresh t'"
      using x y i2 [of x y] td fr by (auto simp: f(3) split: if_splits)
  next
    fix x y assume x: "x \<in> ran rmap" and y: "up (elems t' x) = Some y" and "f0 \<le> y"
    then show "etag (elems t' y) = ''td''"
      using i2 [of x y] td tg by (auto simp: f(3) split: if_splits)
  qed
  show "kids (elems t' a) = kids (elems t a)" if a: "f0 \<le> a" "etag (elems t a) \<noteq> ''td''" for a
  proof -
    have "a \<noteq> td" using a td by auto
    moreover have "up (elems t block) \<noteq> Some a"
      using i2 [OF b, of a] a by auto
    ultimately show ?thesis by (simp add: f(4))
  qed
qed

lemma p_loop_steady:
  assumes "blocks_inv f0 rmap t"
    and "f0 \<le> td" "td < fresh t" "etag (elems t td) = ''td''"
    and "p_loop rmap td ps t = Inr t'"
  shows "blocks_inv f0 rmap t' \<and> fresh t' = fresh t
       \<and> (\<forall>a. etag (elems t' a) = etag (elems t a))
       \<and> (\<forall>a. f0 \<le> a \<and> etag (elems t a) \<noteq> ''td'' \<longrightarrow> kids (elems t' a) = kids (elems t a))"
  using assms
proof (induction ps arbitrary: t)
  case Nil
  then show ?case by simp
next
  case (Cons p ps)
  from Cons.prems(5) obtain block t1 where
    b: "rmap p = Some block" and a: "append t td block = Inr t1"
    and r: "p_loop rmap td ps t1 = Inr t'"
    by (auto split: option.splits sum.splits)
  from b have br: "block \<in> ran rmap" by (auto simp: ran_def)
  note s = append_block [OF Cons.prems(1-4) br a]
  have "blocks_inv f0 rmap t' \<and> fresh t' = fresh t1
       \<and> (\<forall>a. etag (elems t' a) = etag (elems t1 a))
       \<and> (\<forall>a. f0 \<le> a \<and> etag (elems t1 a) \<noteq> ''td'' \<longrightarrow> kids (elems t' a) = kids (elems t1 a))"
    using Cons.prems(2-4) s(2,3) by (intro Cons.IH [OF s(1) _ _ _ r]) simp_all
  with s show ?case by simp
qed

lemma row_made_steady:
  assumes "row_made f0 t tr row" and "steady f0 S t t'" and "tr \<notin> S"
  shows "row_made f0 t' tr row"
proof -
  from assms(2) have s1: "fresh t \<le> fresh t'"
    and s2: "\<And>x. x < fresh t \<Longrightarrow> etag (elems t' x) = etag (elems t x)"
    and s3: "\<And>x. f0 \<le> x \<Longrightarrow> x < fresh t \<Longrightarrow> etag (elems t x) \<noteq> ''td'' \<Longrightarrow> x \<notin> S
              \<Longrightarrow> kids (elems t' x) = kids (elems t x)"
    by (simp_all add: steady_def)
  from assms(1) have r: "f0 \<le> tr" "tr < fresh t" "etag (elems t tr) = ''tr''"
    and c: "list_all2 (\<lambda>td tc. td < fresh t \<and> etag (elems t td) = ''td'')
              (kids (elems t tr)) (XPath_children ''w:tc'' row)"
    by (simp_all add: row_made_def)
  have k: "kids (elems t' tr) = kids (elems t tr)"
    using s3 [of tr] r assms(3) by simp
  have "list_all2 (\<lambda>td tc. td < fresh t' \<and> etag (elems t' td) = ''td'')
              (kids (elems t tr)) (XPath_children ''w:tc'' row)"
    using c s1 s2 by (auto elim!: list_all2_mono)
  with r s1 s2 [of tr] k show ?thesis by (simp add: row_made_def)
qed

lemma table_made_steady:
  assumes "table_made f0 t tb tbl" and "steady f0 {} t t'"
  shows "table_made f0 t' tb tbl"
proof -
  from assms(2) have s1: "fresh t \<le> fresh t'"
    and s2: "\<And>x. x < fresh t \<Longrightarrow> etag (elems t' x) = etag (elems t x)"
    and s3: "\<And>x. f0 \<le> x \<Longrightarrow> x < fresh t \<Longrightarrow> etag (elems t x) \<noteq> ''td''
              \<Longrightarrow> kids (elems t' x) = kids (elems t x)"
    by (simp_all add: steady_def)
  from assms(1) have r: "f0 \<le> tb" "tb < fresh t" "etag (elems t tb) = ''table''"
    and c: "list_all2 (row_made f0 t) (kids (elems t tb)) (XPath_children ''w:tr'' tbl)"
    by (simp_all add: table_made_def)
  have k: "kids (elems t' tb) = kids (elems t tb)"
    using s3 [of tb] r by simp
  have "list_all2 (row_made f0 t') (kids (elems t tb)) (XPath_children ''w:tr'' tbl)"
    using c row_made_steady [OF _ assms(2)] by (auto elim!: list_all2_mono)
  with r s1 s2 [of tb] k show ?thesis by (simp add: table_made_def)
qed

lemma table_made_shape: "table_made f0 t tb tbl \<Longrightarrow> table_shape t tb tbl"
  unfolding table_made_def table_shape_def row_made_def
  by (auto elim!: list_all2_mono)

lemma list_all2_all:
  "length xs = length ys \<Longrightarrow> \<forall>x \<in> set xs. P x \<Longrightarrow> list_all2 (\<lambda>x y. P x) xs ys"
  by (induction xs ys rule: list_induct2) auto

text \<open>A new element is made and appended to an element of the tree.\<close>

lemma make_child:
  assumes inv: "blocks_inv f0 rmap t"
    and p: "p < fresh t"
    and mk: "make_element tg txt t = (c, t1)"
    and app: "append (set_tail t1 c s) p c = Inr t2"
  shows "c = fresh t" and "fresh t2 = Suc (fresh t)" and "blocks_inv f0 rmap t2"
    and "\<And>a. etag (elems t2 a) = (if a = fresh t then tg else etag (elems t a))"
    and "\<And>a. kids (elems t2 a) =
           (if a = p then kids (elems t p) @ [fresh t] else if a = fresh t then []
            else kids (elems t a))"
proof -
  note m = make_element_fields [OF mk]
  note f = append_fields [OF app]
  show c: "c = fresh t" by (rule m(1))
  show fr: "fresh t2 = Suc (fresh t)" by (simp add: f(1) set_tail_fields m(2))
  show tg: "\<And>a. etag (elems t2 a) = (if a = fresh t then tg else etag (elems t a))"
    by (simp add: f(2) set_tail_fields m(3))
  have u: "up (elems t1 (fresh t)) = None"
    by (simp add: m(4))
  have pc: "p \<noteq> fresh t" using p by simp
  show "\<And>a. kids (elems t2 a) =
           (if a = p then kids (elems t p) @ [fresh t] else if a = fresh t then []
            else kids (elems t a))"
    using pc by (simp add: f(4) u set_tail_fields m(5) c)
  from inv have i0: "f0 \<le> fresh t"
    and i1: "\<And>x. x \<in> ran rmap \<Longrightarrow> x < f0"
    and i2: "\<And>x y. x \<in> ran rmap \<Longrightarrow> up (elems t x) = Some y \<Longrightarrow>
               y < fresh t \<and> (f0 \<le> y \<longrightarrow> etag (elems t y) = ''td'')"
    by (auto simp: blocks_inv_def)
  have upx: "up (elems t2 x) = up (elems t x)" if "x \<in> ran rmap" for x
    using i1 [OF that] i0 by (simp add: f(3) set_tail_fields m(4) c)
  show "blocks_inv f0 rmap t2"
    unfolding blocks_inv_def
  proof (intro conjI ballI allI impI)
    show "f0 \<le> fresh t2" using i0 fr by simp
  next
    fix x assume "x \<in> ran rmap" then show "x < f0" by (rule i1)
  next
    fix x y assume x: "x \<in> ran rmap" and y: "up (elems t2 x) = Some y"
    then show "y < fresh t2" using i2 [of x y] upx fr by auto
  next
    fix x y assume x: "x \<in> ran rmap" and y: "up (elems t2 x) = Some y" and "f0 \<le> y"
    then show "etag (elems t2 y) = ''td''"
      using i2 [of x y] upx tg by auto
  qed
qed

lemma tc_loop_cells:
  assumes "blocks_inv f0 rmap t"
    and "f0 \<le> tr" "tr < fresh t" "etag (elems t tr) = ''tr''"
    and "tc_loop rmap tr tcs t = Inr t'"
  shows "blocks_inv f0 rmap t' \<and> steady f0 {tr} t t'
       \<and> (\<forall>a. fresh t \<le> a \<and> a < fresh t' \<longrightarrow> etag (elems t' a) = ''td'')
       \<and> (\<exists>tds. kids (elems t' tr) = kids (elems t tr) @ tds \<and> length tds = length tcs
              \<and> (\<forall>td \<in> set tds. fresh t \<le> td \<and> td < fresh t'))"
  using assms
proof (induction tcs arbitrary: t)
  case Nil
  then show ?case by (auto simp: steady_refl)
next
  case (Cons tc tcs)
  note inv = Cons.prems(1) and tr = Cons.prems(2-4)
  from Cons.prems(5) obtain td t1 t2 t3 where
    mk: "make_element ''td'' None t = (td, t1)"
    and app: "append (set_tail t1 td (nl_tabs 3)) tr td = Inr t2"
    and pl: "p_loop rmap td (XPath_children ''w:p'' tc) t2 = Inr t3"
    and rest: "tc_loop rmap tr tcs t3 = Inr t'"
    by (auto split: prod.splits sum.splits)
  note m = make_child [OF inv tr(2) mk app]
  from inv have f0: "f0 \<le> fresh t" by (simp add: blocks_inv_def)
  have td2: "f0 \<le> td" "td < fresh t2" "etag (elems t2 td) = ''td''"
    using m(1,2,4) f0 by simp_all
  from p_loop_steady [OF m(3) td2 pl] have
    inv3: "blocks_inv f0 rmap t3" and fr3: "fresh t3 = fresh t2"
    and tg3: "\<And>a. etag (elems t3 a) = etag (elems t2 a)"
    and kd3: "\<And>a. f0 \<le> a \<Longrightarrow> etag (elems t2 a) \<noteq> ''td'' \<Longrightarrow> kids (elems t3 a) = kids (elems t2 a)"
    by auto
  have tr3: "tr < fresh t3" "etag (elems t3 tr) = ''tr''"
    using tr m(2,4) fr3 tg3 by auto
  from Cons.IH [OF inv3 tr(1) tr3 rest] obtain tds where
    inv': "blocks_inv f0 rmap t'" and st: "steady f0 {tr} t3 t'"
    and new: "\<And>a. fresh t3 \<le> a \<Longrightarrow> a < fresh t' \<Longrightarrow> etag (elems t' a) = ''td''"
    and k: "kids (elems t' tr) = kids (elems t3 tr) @ tds" "length tds = length tcs"
       "\<And>x. x \<in> set tds \<Longrightarrow> fresh t3 \<le> x \<and> x < fresh t'"
    by auto
  from st have st1: "fresh t3 \<le> fresh t'"
    and st2: "\<And>x. x < fresh t3 \<Longrightarrow> etag (elems t' x) = etag (elems t3 x)"
    by (simp_all add: steady_def)
  have s03: "steady f0 {tr} t t3"
    unfolding steady_def
  proof (intro conjI allI impI)
    show "fresh t \<le> fresh t3" using fr3 m(2) by simp
  next
    fix a assume "a < fresh t"
    then show "etag (elems t3 a) = etag (elems t a)" using tg3 m(4) by simp
  next
    fix a assume a: "f0 \<le> a \<and> a < fresh t \<and> etag (elems t a) \<noteq> ''td'' \<and> a \<notin> {tr}"
    then have "etag (elems t2 a) \<noteq> ''td''" using m(4) by simp
    with a kd3 [of a] m(5) [of a] show "kids (elems t3 a) = kids (elems t a)" by simp
  qed
  have k3: "kids (elems t3 tr) = kids (elems t tr) @ [fresh t]"
  proof -
    have "etag (elems t2 tr) \<noteq> ''td''" using tr m(4) by simp
    with kd3 [of tr] tr(1) m(5) [of tr] show ?thesis by simp
  qed
  have newtags: "etag (elems t' a) = ''td''" if "fresh t \<le> a" "a < fresh t'" for a
  proof (cases "a = fresh t")
    case True
    then have "a < fresh t3" using fr3 m(2) by simp
    from st2 [OF this] True tg3 m(4) show ?thesis by simp
  next
    case False
    with that have "fresh t3 \<le> a" using fr3 m(2) by simp
    with that new show ?thesis by simp
  qed
  have kk: "kids (elems t' tr) = kids (elems t tr) @ (fresh t # tds)"
    using k(1) k3 by simp
  have len: "length (fresh t # tds) = length (tc # tcs)" using k(2) by simp
  have rng: "\<forall>x \<in> set (fresh t # tds). fresh t \<le> x \<and> x < fresh t'"
    using k(3) fr3 m(2) st1 by fastforce
  from inv' steady_trans [OF s03 st] newtags kk len rng show ?case by blast
qed

lemma blocks_inv_cong:
  assumes "blocks_inv f0 rmap t" and "fresh t' = fresh t"
    and "\<And>a. up (elems t' a) = up (elems t a)" and "\<And>a. etag (elems t' a) = etag (elems t a)"
  shows "blocks_inv f0 rmap t'"
  using assms unfolding blocks_inv_def by simp

lemma tr_loop_rows:
  assumes "blocks_inv f0 rmap t"
    and "f0 \<le> table" "table < fresh t" "etag (elems t table) = ''table''"
    and "tr_loop rmap table rows t = Inr t'"
  shows "blocks_inv f0 rmap t' \<and> steady f0 {table} t t'
       \<and> (\<forall>a. fresh t \<le> a \<and> a < fresh t' \<longrightarrow> etag (elems t' a) \<noteq> ''table'')
       \<and> (\<exists>trs. kids (elems t' table) = kids (elems t table) @ trs
              \<and> list_all2 (row_made f0 t') trs rows)"
  using assms
proof (induction rows arbitrary: t)
  case Nil
  then show ?case by (auto simp: steady_refl)
next
  case (Cons row rows)
  note inv = Cons.prems(1) and tb = Cons.prems(2-4)
  from Cons.prems(5) obtain tr t1 t2 t3 where
    mk: "make_element ''tr'' (Some (nl_tabs 3)) t = (tr, t1)"
    and app: "append (set_tail t1 tr (nl_tabs 2)) table tr = Inr t2"
    and tcl: "tc_loop rmap tr (XPath_children ''w:tc'' row) t2 = Inr t3"
    and rest: "tr_loop rmap table rows (set_last_tail t3 tr (nl_tabs 2)) = Inr t'"
    by (auto split: prod.splits sum.splits)
  define t4 where "t4 = set_last_tail t3 tr (nl_tabs 2)"
  note m = make_child [OF inv tb(2) mk app]
  from inv have f0: "f0 \<le> fresh t" by (simp add: blocks_inv_def)
  have tr2: "f0 \<le> tr" "tr < fresh t2" "etag (elems t2 tr) = ''tr''"
    using m(1,2,4) f0 by simp_all
  have trf: "tr = fresh t" by (rule m(1))
  from tc_loop_cells [OF m(3) tr2 tcl] obtain tds where
    inv3: "blocks_inv f0 rmap t3" and st23: "steady f0 {tr} t2 t3"
    and new3: "\<And>a. fresh t2 \<le> a \<Longrightarrow> a < fresh t3 \<Longrightarrow> etag (elems t3 a) = ''td''"
    and k3: "kids (elems t3 tr) = kids (elems t2 tr) @ tds"
       "length tds = length (XPath_children ''w:tc'' row)"
       "\<And>x. x \<in> set tds \<Longrightarrow> fresh t2 \<le> x \<and> x < fresh t3"
    by auto
  from st23 have s1: "fresh t2 \<le> fresh t3"
    and s2: "\<And>x. x < fresh t2 \<Longrightarrow> etag (elems t3 x) = etag (elems t2 x)"
    and s3: "\<And>x. f0 \<le> x \<Longrightarrow> x < fresh t2 \<Longrightarrow> etag (elems t2 x) \<noteq> ''td'' \<Longrightarrow> x \<noteq> tr
              \<Longrightarrow> kids (elems t3 x) = kids (elems t2 x)"
    by (simp_all add: steady_def)
  have f4: "fresh t4 = fresh t3" "\<And>a. etag (elems t4 a) = etag (elems t3 a)"
    "\<And>a. up (elems t4 a) = up (elems t3 a)" "\<And>a. kids (elems t4 a) = kids (elems t3 a)"
    by (simp_all add: t4_def set_last_tail_fields)
  have inv4: "blocks_inv f0 rmap t4"
    by (rule blocks_inv_cong [OF inv3]) (simp_all add: f4)
  have k2tr: "kids (elems t2 tr) = []"
    using m(5) [of tr] trf tb(2) by simp
  have row4: "row_made f0 t4 tr row"
  proof -
    have "\<forall>x \<in> set tds. x < fresh t4 \<and> etag (elems t4 x) = ''td''"
      using k3(3) new3 f4 by auto
    from list_all2_all [OF k3(2) this]
    have "list_all2 (\<lambda>td tc. td < fresh t4 \<and> etag (elems t4 td) = ''td'')
            (kids (elems t4 tr)) (XPath_children ''w:tc'' row)"
      using k3(1) k2tr f4 by simp
    moreover have "etag (elems t4 tr) = ''tr''" using f4 s2 [of tr] tr2 by simp
    moreover have "tr < fresh t4" using f4 s1 tr2 by simp
    ultimately show ?thesis using tr2(1) by (simp add: row_made_def)
  qed
  have tb4: "table < fresh t4" "etag (elems t4 table) = ''table''"
    using tb m(2,4) s1 s2 [of table] f4 by auto
  from Cons.IH [OF inv4 tb(1) tb4 rest [folded t4_def]] obtain trs where
    inv': "blocks_inv f0 rmap t'" and st: "steady f0 {table} t4 t'"
    and new: "\<And>a. fresh t4 \<le> a \<Longrightarrow> a < fresh t' \<Longrightarrow> etag (elems t' a) \<noteq> ''table''"
    and k: "kids (elems t' table) = kids (elems t4 table) @ trs"
       "list_all2 (row_made f0 t') trs rows"
    by auto
  from st have st1: "fresh t4 \<le> fresh t'"
    and st2: "\<And>x. x < fresh t4 \<Longrightarrow> etag (elems t' x) = etag (elems t4 x)"
    by (simp_all add: steady_def)
  have ne: "tr \<noteq> table" using trf tb(2) by simp
  have row': "row_made f0 t' tr row"
    by (rule row_made_steady [OF row4 st]) (simp add: ne)
  have k4: "kids (elems t4 table) = kids (elems t table) @ [tr]"
  proof -
    have "etag (elems t2 table) \<noteq> ''td''" using tb m(4) by simp
    with s3 [of table] tb m(2) ne m(5) [of table] f4 trf show ?thesis by simp
  qed
  have s04: "steady f0 {table} t t4"
    unfolding steady_def
  proof (intro conjI allI impI)
    show "fresh t \<le> fresh t4" using f4 s1 m(2) by simp
  next
    fix a assume "a < fresh t"
    then show "etag (elems t4 a) = etag (elems t a)" using f4 s2 [of a] m(2,4) by simp
  next
    fix a assume a: "f0 \<le> a \<and> a < fresh t \<and> etag (elems t a) \<noteq> ''td'' \<and> a \<notin> {table}"
    then have "etag (elems t2 a) \<noteq> ''td''" "a \<noteq> tr" "a < fresh t2"
      using m(2,4) trf by simp_all
    with a s3 [of a] m(5) [of a] f4 show "kids (elems t4 a) = kids (elems t a)" by simp
  qed
  have newtags: "etag (elems t' a) \<noteq> ''table''" if a1: "fresh t \<le> a" and a2: "a < fresh t'" for a
  proof -
    have "a = tr \<or> (fresh t2 \<le> a \<and> a < fresh t3) \<or> fresh t4 \<le> a"
      using a1 trf m(2) f4(1) by auto
    then consider "a = tr" | "fresh t2 \<le> a" "a < fresh t3" | "fresh t4 \<le> a"
      by blast
    then show ?thesis
    proof cases
      case 1
      with row' show ?thesis by (simp add: row_made_def)
    next
      case 2
      then have "etag (elems t' a) = ''td''" using new3 [of a] st2 [of a] f4 by simp
      then show ?thesis by simp
    next
      case 3
      with a2 new show ?thesis by simp
    qed
  qed
  have kk: "kids (elems t' table) = kids (elems t table) @ (tr # trs)"
    using k(1) k4 by simp
  have "list_all2 (row_made f0 t') (tr # trs) (row # rows)"
    using row' k(2) by simp
  with inv' steady_trans [OF s04 st] newtags kk show ?case by blast
qed

lemma position_Some:
  "position ks x = Some i \<Longrightarrow> i < length ks \<and> ks ! i = x \<and> x \<notin> set (take i ks)"
proof (induction ks arbitrary: i)
  case Nil
  then show ?case by simp
next
  case (Cons k ks)
  show ?case
  proof (cases "k = x")
    case True
    with Cons.prems show ?thesis by simp
  next
    case False
    with Cons.prems obtain j where j: "position ks x = Some j" "i = Suc j" by auto
    from Cons.IH [OF j(1)] j(2) False show ?thesis by auto
  qed
qed

lemma steady_fields:
  assumes "fresh t' = fresh t" and "\<And>a. etag (elems t' a) = etag (elems t a)"
    and "\<And>a. kids (elems t' a) = kids (elems t a)"
  shows "steady f0 S t t'"
  using assms by (simp add: steady_def)

lemma insert_table_position:
  assumes inv: "blocks_inv f0 rmap t"
    and ins: "insert_table rmap block0 t = Inr (table, t2)"
  shows "table = fresh t" and "fresh t2 = Suc (fresh t)" and "blocks_inv f0 rmap t2"
    and "\<And>a. etag (elems t2 a) = (if a = fresh t then ''table'' else etag (elems t a))"
    and "kids (elems t2 (fresh t)) = []"
    and "\<And>a. f0 \<le> a \<Longrightarrow> a < fresh t \<Longrightarrow> etag (elems t a) \<noteq> ''td''
           \<Longrightarrow> kids (elems t2 a) = kids (elems t a)"
    and "\<exists>b parent idx. rmap block0 = Some b \<and> up (elems t b) = Some parent
           \<and> position (kids (elems t parent)) b = Some idx
           \<and> kids (elems t2 parent) =
               take idx (kids (elems t parent)) @ [table] @ drop idx (kids (elems t parent))
           \<and> up (elems t2 table) = Some parent"
proof -
  from ins obtain b t1 parent idx where
    b: "rmap block0 = Some b"
    and mk: "make_element ''table'' (Some (nl_tabs 2)) t = (table, t1)"
    and par: "getparent t b = Some parent"
    and ix: "index t1 parent b = Inr idx"
    and ia: "insert_at t1 parent idx table = Inr t2"
    by (auto simp: insert_table_def split: option.splits prod.splits sum.splits)
  note m = make_element_fields [OF mk]
  note f = insert_at_fields [OF ia]
  from inv have i0: "f0 \<le> fresh t"
    and i1: "\<And>x. x \<in> ran rmap \<Longrightarrow> x < f0"
    and i2: "\<And>x y. x \<in> ran rmap \<Longrightarrow> up (elems t x) = Some y \<Longrightarrow>
               y < fresh t \<and> (f0 \<le> y \<longrightarrow> etag (elems t y) = ''td'')"
    by (auto simp: blocks_inv_def)
  from b have br: "b \<in> ran rmap" by (auto simp: ran_def)
  from par have upb: "up (elems t b) = Some parent" by (simp add: getparent_def)
  from i2 [OF br upb] have p: "parent < fresh t" "f0 \<le> parent \<Longrightarrow> etag (elems t parent) = ''td''"
    by auto
  show tb: "table = fresh t" by (rule m(1))
  show fr: "fresh t2 = Suc (fresh t)" by (simp add: f(1) m(2))
  show tg: "\<And>a. etag (elems t2 a) = (if a = fresh t then ''table'' else etag (elems t a))"
    by (simp add: f(2) m(3))
  have u: "up (elems t1 (fresh t)) = None" by (simp add: m(4))
  have pne: "parent \<noteq> fresh t" using p(1) by simp
  have k1: "kids (elems t1 parent) = kids (elems t parent)" using pne by (simp add: m(5))
  have k2: "kids (elems t2 a) =
      (if a = parent then take idx (kids (elems t parent)) @ [table] @ drop idx (kids (elems t parent))
       else if a = fresh t then [] else kids (elems t a))" for a
    using pne by (simp add: f(4) tb u m(5))
  show "kids (elems t2 (fresh t)) = []" using k2 [of "fresh t"] pne by simp
  show "kids (elems t2 a) = kids (elems t a)"
    if "f0 \<le> a" "a < fresh t" "etag (elems t a) \<noteq> ''td''" for a
    using that p(2) k2 [of a] by auto
  from ix have pos: "position (kids (elems t parent)) b = Some idx"
    by (simp add: index_def k1 split: option.splits)
  have "up (elems t2 table) = Some parent" by (simp add: f(3))
  with b upb pos k2 [of parent] show "\<exists>b parent idx. rmap block0 = Some b
           \<and> up (elems t b) = Some parent
           \<and> position (kids (elems t parent)) b = Some idx
           \<and> kids (elems t2 parent) =
               take idx (kids (elems t parent)) @ [table] @ drop idx (kids (elems t parent))
           \<and> up (elems t2 table) = Some parent"
    by auto
  have upx: "up (elems t2 x) = up (elems t x)" if "x \<in> ran rmap" for x
    using i1 [OF that] i0 by (simp add: f(3) tb m(4))
  show "blocks_inv f0 rmap t2"
    unfolding blocks_inv_def
  proof (intro conjI ballI allI impI)
    show "f0 \<le> fresh t2" using i0 fr by simp
  next
    fix x assume "x \<in> ran rmap" then show "x < f0" by (rule i1)
  next
    fix x y assume x: "x \<in> ran rmap" and y: "up (elems t2 x) = Some y"
    then show "y < fresh t2" using i2 [of x y] upx fr by auto
  next
    fix x y assume x: "x \<in> ran rmap" and y: "up (elems t2 x) = Some y" and "f0 \<le> y"
    then show "etag (elems t2 y) = ''td''"
      using i2 [of x y] upx tg by auto
  qed
qed

lemma p_loop_fresh: "p_loop rmap td ps t = Inr t' \<Longrightarrow> fresh t' = fresh t"
  by (induction ps arbitrary: t)
    (auto split: option.splits sum.splits dest: append_fields(1))

lemma tc_loop_fresh:
  "tc_loop rmap tr tcs t = Inr t' \<Longrightarrow> fresh t' = fresh t + length tcs"
proof (induction tcs arbitrary: t)
  case Nil
  then show ?case by simp
next
  case (Cons tc tcs)
  from Cons.prems obtain td t1 t2 t3 where
    mk: "make_element ''td'' None t = (td, t1)"
    and app: "append (set_tail t1 td (nl_tabs 3)) tr td = Inr t2"
    and pl: "p_loop rmap td (XPath_children ''w:p'' tc) t2 = Inr t3"
    and rest: "tc_loop rmap tr tcs t3 = Inr t'"
    by (auto split: prod.splits sum.splits)
  have "fresh t3 = Suc (fresh t)"
    using p_loop_fresh [OF pl] append_fields(1) [OF app] make_element_fields(2) [OF mk]
    by (simp add: set_tail_fields)
  with Cons.IH [OF rest] show ?case by simp
qed

lemma tr_loop_fresh:
  "tr_loop rmap table rows t = Inr t' \<Longrightarrow>
   fresh t' = fresh t + sum_list (map (\<lambda>row. 1 + length (XPath_children ''w:tc'' row)) rows)"
proof (induction rows arbitrary: t)
  case Nil
  then show ?case by simp
next
  case (Cons row rows)
  from Cons.prems obtain tr t1 t2 t3 where
    mk: "make_element ''tr'' (Some (nl_tabs 3)) t = (tr, t1)"
    and app: "append (set_tail t1 tr (nl_tabs 2)) table tr = Inr t2"
    and tcl: "tc_loop rmap tr (XPath_children ''w:tc'' row) t2 = Inr t3"
    and rest: "tr_loop rmap table rows (set_last_tail t3 tr (nl_tabs 2)) = Inr t'"
    by (auto split: prod.splits sum.splits)
  have "fresh t3 = Suc (fresh t) + length (XPath_children ''w:tc'' row)"
    using tc_loop_fresh [OF tcl] append_fields(1) [OF app] make_element_fields(2) [OF mk]
    by (simp add: set_tail_fields)
  with Cons.IH [OF rest] show ?case by (simp add: set_last_tail_fields)
qed

lemma apply_table_made:
  assumes inv: "blocks_inv f0 rmap t"
    and app: "apply_table rmap (tbl, blocks) t = Inr t'"
  shows "blocks_inv f0 rmap t'" and "steady f0 {} t t'"
    and "blocks = [] \<Longrightarrow> t' = t"
    and "blocks \<noteq> [] \<Longrightarrow>
           fresh t' = fresh t + table_size tbl \<and> table_made f0 t' (fresh t) tbl
           \<and> (\<forall>a. fresh t < a \<and> a < fresh t' \<longrightarrow> etag (elems t' a) \<noteq> ''table'')"
proof -
  show e: "t' = t" if "blocks = []" using that app by (simp add: apply_table_def)
  have main: "blocks_inv f0 rmap t' \<and> steady f0 {} t t'
        \<and> fresh t' = fresh t + table_size tbl \<and> table_made f0 t' (fresh t) tbl
        \<and> (\<forall>a. fresh t < a \<and> a < fresh t' \<longrightarrow> etag (elems t' a) \<noteq> ''table'')"
    if ne: "blocks \<noteq> []"
  proof -
    from ne app obtain table t2 t3 where
      ins: "insert_table rmap (hd blocks) t = Inr (table, t2)"
      and trl: "tr_loop rmap table (XPath_children ''w:tr'' tbl) t2 = Inr t3"
      and t': "t' = set_last_tail t3 table (nl_tabs 1)"
      by (cases blocks) (auto simp: apply_table_def split: sum.splits prod.splits)
    note i = insert_table_position [OF inv ins]
    from inv have f0: "f0 \<le> fresh t" by (simp add: blocks_inv_def)
    have tb2: "f0 \<le> table" "table < fresh t2" "etag (elems t2 table) = ''table''"
      using i(1,2,4) f0 by simp_all
    from tr_loop_rows [OF i(3) tb2 trl] obtain trs where
      inv3: "blocks_inv f0 rmap t3" and st: "steady f0 {table} t2 t3"
      and new: "\<And>a. fresh t2 \<le> a \<Longrightarrow> a < fresh t3 \<Longrightarrow> etag (elems t3 a) \<noteq> ''table''"
      and k: "kids (elems t3 table) = kids (elems t2 table) @ trs"
         "list_all2 (row_made f0 t3) trs (XPath_children ''w:tr'' tbl)"
      by auto
    from st have s1: "fresh t2 \<le> fresh t3"
      and s2: "\<And>x. x < fresh t2 \<Longrightarrow> etag (elems t3 x) = etag (elems t2 x)"
      and s3: "\<And>x. f0 \<le> x \<Longrightarrow> x < fresh t2 \<Longrightarrow> etag (elems t2 x) \<noteq> ''td'' \<Longrightarrow> x \<noteq> table
              \<Longrightarrow> kids (elems t3 x) = kids (elems t2 x)"
      by (simp_all add: steady_def)
    have f': "fresh t' = fresh t3" "\<And>a. etag (elems t' a) = etag (elems t3 a)"
      "\<And>a. up (elems t' a) = up (elems t3 a)" "\<And>a. kids (elems t' a) = kids (elems t3 a)"
      by (simp_all add: t' set_last_tail_fields)
    have inv': "blocks_inv f0 rmap t'"
      by (rule blocks_inv_cong [OF inv3]) (simp_all add: f')
    have st3: "steady f0 {} t3 t'"
      by (rule steady_fields) (simp_all add: f')
    have "table_made f0 t3 table tbl"
      using tb2 s1 s2 [of table] k i(1,5) by (simp add: table_made_def)
    from table_made_steady [OF this st3] have made: "table_made f0 t' (fresh t) tbl"
      using i(1) by simp
    have s0: "steady f0 {} t t3"
      unfolding steady_def
    proof (intro conjI allI impI)
      show "fresh t \<le> fresh t3" using s1 i(2) by simp
    next
      fix a assume "a < fresh t"
      then show "etag (elems t3 a) = etag (elems t a)" using s2 [of a] i(2,4) by simp
    next
      fix a assume a: "f0 \<le> a \<and> a < fresh t \<and> etag (elems t a) \<noteq> ''td'' \<and> a \<notin> {}"
      then have "etag (elems t2 a) \<noteq> ''td''" "a \<noteq> table" "a < fresh t2"
        using i(1,2,4) by simp_all
      with a s3 [of a] i(6) [of a] show "kids (elems t3 a) = kids (elems t a)" by simp
    qed
    have cnt: "fresh t' = fresh t + table_size tbl"
      using tr_loop_fresh [OF trl] i(2) f'(1) by (simp add: table_size_def)
    have "etag (elems t' a) \<noteq> ''table''" if "fresh t < a" "a < fresh t'" for a
      using that new [of a] i(2) f' by simp
    with inv' steady_trans [OF s0 st3] cnt made show ?thesis by blast
  qed
  show "blocks_inv f0 rmap t'"
    using main e inv by (cases "blocks = []") simp_all
  show "steady f0 {} t t'"
    using main e steady_refl by (cases "blocks = []") simp_all
  show "fresh t' = fresh t + table_size tbl \<and> table_made f0 t' (fresh t) tbl
           \<and> (\<forall>a. fresh t < a \<and> a < fresh t' \<longrightarrow> etag (elems t' a) \<noteq> ''table'')"
    if "blocks \<noteq> []"
    using main [OF that] by simp
qed

lemma made_tables_split:
  assumes "f \<le> m" and "m \<le> fresh t"
  shows "made_tables f t = filter (\<lambda>a. etag (elems t a) = ''table'') [f..<m] @ made_tables m t"
proof -
  from assms have "[f..<fresh t] = [f..<m] @ [m..<fresh t]"
    by (metis le_Suc_ex upt_add_eq_append)
  then show ?thesis by (simp add: made_tables_def)
qed

lemma made_tables_one:
  assumes "f < m" and "etag (elems t f) = ''table''"
    and "\<forall>a. f < a \<and> a < m \<longrightarrow> etag (elems t a) \<noteq> ''table''"
  shows "filter (\<lambda>a. etag (elems t a) = ''table'') [f..<m] = [f]"
proof -
  from assms(1) have "[f..<m] = f # [Suc f..<m]" by (simp add: upt_conv_Cons)
  moreover have "filter (\<lambda>a. etag (elems t a) = ''table'') [Suc f..<m] = []"
    using assms(3) by (auto simp: filter_empty_conv)
  ultimately show ?thesis using assms(2) by simp
qed

lemma tables_loop_made:
  assumes "blocks_inv f0 rmap t" and "tables_loop rmap items t = Inr t'"
  shows "blocks_inv f0 rmap t' \<and> steady f0 {} t t'
       \<and> fresh t' = fresh t + sum_list (map table_size (contributing items))
       \<and> list_all2 (table_made f0 t') (made_tables (fresh t) t') (contributing items)"
  using assms
proof (induction items arbitrary: t)
  case Nil
  then show ?case by (simp add: steady_refl made_tables_def contributing_def)
next
  case (Cons item items)
  obtain tbl blocks where item: "item = (tbl, blocks)" by (cases item)
  from Cons.prems(2) obtain t1 where
    a: "apply_table rmap (tbl, blocks) t = Inr t1" and r: "tables_loop rmap items t1 = Inr t'"
    by (auto simp: item split: sum.splits)
  note ap = apply_table_made [OF Cons.prems(1) a]
  from Cons.IH [OF ap(1) r] have
    inv': "blocks_inv f0 rmap t'" and st: "steady f0 {} t1 t'"
    and cnt: "fresh t' = fresh t1 + sum_list (map table_size (contributing items))"
    and made: "list_all2 (table_made f0 t') (made_tables (fresh t1) t') (contributing items)"
    by auto
  show ?case
  proof (cases "blocks = []")
    case True
    with ap(3) have "t1 = t" by simp
    moreover have "contributing (item # items) = contributing items"
      using True by (simp add: contributing_def item)
    ultimately show ?thesis using inv' st cnt made by simp
  next
    case False
    from ap(4) [OF False] have
      c1: "fresh t1 = fresh t + table_size tbl" and m1: "table_made f0 t1 (fresh t) tbl"
      and n1: "\<forall>a. fresh t < a \<and> a < fresh t1 \<longrightarrow> etag (elems t1 a) \<noteq> ''table''"
      by auto
    from st have s1: "fresh t1 \<le> fresh t'"
      and s2: "\<And>x. x < fresh t1 \<Longrightarrow> etag (elems t' x) = etag (elems t1 x)"
      by (simp_all add: steady_def)
    have lt: "fresh t < fresh t1" using c1 by (simp add: table_size_def)
    have m': "table_made f0 t' (fresh t) tbl" by (rule table_made_steady [OF m1 st])
    then have tg: "etag (elems t' (fresh t)) = ''table''" by (simp add: table_made_def)
    have "\<forall>a. fresh t < a \<and> a < fresh t1 \<longrightarrow> etag (elems t' a) \<noteq> ''table''"
      using n1 s2 by simp
    from made_tables_one [OF lt tg this] made_tables_split [of "fresh t" "fresh t1" t'] lt s1
    have mt: "made_tables (fresh t) t' = fresh t # made_tables (fresh t1) t'" by simp
    have co: "contributing (item # items) = tbl # contributing items"
      using False by (simp add: contributing_def item)
    have "fresh t' = fresh t + sum_list (map table_size (contributing (item # items)))"
      using cnt c1 co by simp
    moreover have "list_all2 (table_made f0 t') (made_tables (fresh t) t')
        (contributing (item # items))"
      using mt co m' made by simp
    ultimately show ?thesis using inv' steady_trans [OF ap(2) st] by simp
  qed
qed

lemma ran_rmap_of: "ran (rmap_of object_map) \<subseteq> fst ` set object_map"
proof -
  have "ran (fold (\<lambda>(k, v) m. m(v \<mapsto> k)) om m0) \<subseteq> ran m0 \<union> fst ` set om"
    for om :: "(nat \<times> xml) list" and m0
  proof (induction om arbitrary: m0)
    case Nil
    then show ?case by simp
  next
    case (Cons kv om)
    obtain k v where kv: "kv = (k, v)" by (cases kv)
    have 1: "ran (m0(v \<mapsto> k)) \<subseteq> ran m0 \<union> {k}"
      by (auto simp: ran_def split: if_splits)
    have 2: "fold (\<lambda>(k, v) m. m(v \<mapsto> k)) (kv # om) m0
        = fold (\<lambda>(k, v) m. m(v \<mapsto> k)) om (m0(v \<mapsto> k))"
      by (simp add: kv)
    have 3: "fst ` set (kv # om) = {k} \<union> fst ` set om" by (simp add: kv)
    from Cons.IH [of "m0(v \<mapsto> k)"] 1 show ?case
      unfolding 2 3 by blast
  qed
  from this [of object_map Map.empty] show ?thesis by (simp add: rmap_of_def)
qed

lemma allocated_inv:
  assumes "allocated object_map t"
  shows "blocks_inv (fresh t) (rmap_of object_map) t"
  unfolding blocks_inv_def
proof (intro conjI ballI allI impI)
  show "fresh t \<le> fresh t" by simp
next
  fix x assume "x \<in> ran (rmap_of object_map)"
  with ran_rmap_of obtain v where "(x, v) \<in> set object_map" by fastforce
  with assms show "x < fresh t" by (auto simp: allocated_def list_all_iff)
next
  fix x y assume "x \<in> ran (rmap_of object_map)" and y: "up (elems t x) = Some y"
  with ran_rmap_of obtain v where "(x, v) \<in> set object_map" by fastforce
  with assms y show "y < fresh t" by (force simp: allocated_def list_all_iff)
next
  fix x y assume "x \<in> ran (rmap_of object_map)" and y: "up (elems t x) = Some y"
    and "fresh t \<le> y"
  with ran_rmap_of obtain v where "(x, v) \<in> set object_map" by fastforce
  with assms y have "y < fresh t" by (force simp: allocated_def list_all_iff)
  with \<open>fresh t \<le> y\<close> show "etag (elems t y) = ''td''" by simp
qed

lemma stays_refl: "stays rmap t t"
  by (simp add: stays_def)

lemma stays_trans:
  assumes a: "stays rmap t t1" and b: "stays rmap t1 t2"
  shows "stays rmap t t2"
proof -
  from a have a1: "fresh t \<le> fresh t1"
    and a2: "\<And>x. x < fresh t \<Longrightarrow> x \<notin> ran rmap \<Longrightarrow> up (elems t1 x) = up (elems t x)"
    and a3: "\<And>x p. x < fresh t \<Longrightarrow> x \<notin> ran rmap \<Longrightarrow> p < fresh t
               \<Longrightarrow> x \<in> set (kids (elems t p)) \<Longrightarrow> x \<in> set (kids (elems t1 p))"
    by (simp_all add: stays_def)
  from b have b1: "fresh t1 \<le> fresh t2"
    and b2: "\<And>x. x < fresh t1 \<Longrightarrow> x \<notin> ran rmap \<Longrightarrow> up (elems t2 x) = up (elems t1 x)"
    and b3: "\<And>x p. x < fresh t1 \<Longrightarrow> x \<notin> ran rmap \<Longrightarrow> p < fresh t1
               \<Longrightarrow> x \<in> set (kids (elems t1 p)) \<Longrightarrow> x \<in> set (kids (elems t2 p))"
    by (simp_all add: stays_def)
  have 1: "fresh t \<le> fresh t2" using a1 b1 by simp
  have 2: "up (elems t2 x) = up (elems t x)" if "x < fresh t" "x \<notin> ran rmap" for x
    using that a1 a2 [of x] b2 [of x] by simp
  have 3: "x \<in> set (kids (elems t2 p))"
    if "x < fresh t" "x \<notin> ran rmap" "p < fresh t" "x \<in> set (kids (elems t p))" for x p
    using that a1 a3 [of x p] b3 [of x p] by simp
  from 1 2 3 show ?thesis by (simp add: stays_def)
qed

lemma stays_fields:
  assumes "fresh t' = fresh t" and "\<And>a. up (elems t' a) = up (elems t a)"
    and "\<And>a. kids (elems t' a) = kids (elems t a)"
  shows "stays rmap t t'"
  using assms by (simp add: stays_def)

lemma append_stays:
  assumes "append t p c = Inr t'" and "c \<in> ran rmap \<or> fresh t \<le> c"
  shows "stays rmap t t'"
proof -
  note f = append_fields [OF assms(1)]
  have 1: "up (elems t' x) = up (elems t x)" if "x < fresh t" "x \<notin> ran rmap" for x
    using that assms(2) by (auto simp: f(3))
  have 2: "x \<in> set (kids (elems t' a))"
    if "x < fresh t" "x \<notin> ran rmap" "x \<in> set (kids (elems t a))" for x a
  proof -
    from that assms(2) have "x \<noteq> c" by auto
    with that(3) show ?thesis by (auto simp: f(4))
  qed
  from 1 2 show ?thesis by (simp add: stays_def f(1))
qed

lemma insert_at_stays:
  assumes "insert_at t p i c = Inr t'" and "c \<in> ran rmap \<or> fresh t \<le> c"
  shows "stays rmap t t'"
proof -
  note f = insert_at_fields [OF assms(1)]
  have 1: "up (elems t' x) = up (elems t x)" if "x < fresh t" "x \<notin> ran rmap" for x
    using that assms(2) by (auto simp: f(3))
  have 2: "x \<in> set (kids (elems t' a))"
    if "x < fresh t" "x \<notin> ran rmap" "x \<in> set (kids (elems t a))" for x a
  proof -
    from that assms(2) have ne: "x \<noteq> c" by auto
    have "x \<in> set (take i ks) \<or> x \<in> set (drop i ks)" if "x \<in> set ks" for ks :: "nat list"
      using that by (metis Un_iff append_take_drop_id set_append)
    with ne that(3) show ?thesis by (auto simp: f(4))
  qed
  from 1 2 show ?thesis by (simp add: stays_def f(1))
qed

lemma make_element_stays:
  assumes "make_element tg txt t = (c, t1)"
  shows "stays rmap t t1"
  using make_element_fields [OF assms] by (simp add: stays_def)

lemma make_child_stays:
  assumes mk: "make_element tg txt t = (c, t1)"
    and app: "append (set_tail t1 c s) p c = Inr t2"
  shows "stays rmap t t2"
proof -
  note m = make_element_fields [OF mk]
  have 1: "stays rmap t1 (set_tail t1 c s)"
    by (rule stays_fields) (simp_all add: set_tail_fields)
  have 2: "stays rmap t (set_tail t1 c s)"
    by (rule stays_trans [OF make_element_stays [OF mk] 1])
  have 3: "up (elems t2 x) = up (elems t x)" if "x < fresh t" for x
    using that by (simp add: append_fields(3) [OF app] set_tail_fields m)
  have 4: "x \<in> set (kids (elems t2 a))"
    if "x < fresh t" "a < fresh t" "x \<in> set (kids (elems t a))" for x a
    using that by (auto simp: append_fields(4) [OF app] set_tail_fields m)
  from 3 4 show ?thesis
    by (simp add: stays_def append_fields(1) [OF app] set_tail_fields m)
qed

lemma p_loop_stays: "p_loop rmap td ps t = Inr t' \<Longrightarrow> stays rmap t t'"
proof (induction ps arbitrary: t)
  case Nil
  then show ?case by (simp add: stays_refl)
next
  case (Cons p ps)
  from Cons.prems obtain block t1 where
    b: "rmap p = Some block" and a: "append t td block = Inr t1"
    and r: "p_loop rmap td ps t1 = Inr t'"
    by (auto split: option.splits sum.splits)
  from b have "block \<in> ran rmap" by (auto simp: ran_def)
  then have "stays rmap t t1" using append_stays [OF a] by simp
  from stays_trans [OF this Cons.IH [OF r]] show ?case .
qed

lemma tc_loop_stays: "tc_loop rmap tr tcs t = Inr t' \<Longrightarrow> stays rmap t t'"
proof (induction tcs arbitrary: t)
  case Nil
  then show ?case by (simp add: stays_refl)
next
  case (Cons tc tcs)
  from Cons.prems obtain td t1 t2 t3 where
    mk: "make_element ''td'' None t = (td, t1)"
    and app: "append (set_tail t1 td (nl_tabs 3)) tr td = Inr t2"
    and pl: "p_loop rmap td (XPath_children ''w:p'' tc) t2 = Inr t3"
    and rest: "tc_loop rmap tr tcs t3 = Inr t'"
    by (auto split: prod.splits sum.splits)
  from stays_trans [OF make_child_stays [OF mk app]
      stays_trans [OF p_loop_stays [OF pl] Cons.IH [OF rest]]]
  show ?case .
qed

lemma tr_loop_stays: "tr_loop rmap table rows t = Inr t' \<Longrightarrow> stays rmap t t'"
proof (induction rows arbitrary: t)
  case Nil
  then show ?case by (simp add: stays_refl)
next
  case (Cons row rows)
  from Cons.prems obtain tr t1 t2 t3 where
    mk: "make_element ''tr'' (Some (nl_tabs 3)) t = (tr, t1)"
    and app: "append (set_tail t1 tr (nl_tabs 2)) table tr = Inr t2"
    and tcl: "tc_loop rmap tr (XPath_children ''w:tc'' row) t2 = Inr t3"
    and rest: "tr_loop rmap table rows (set_last_tail t3 tr (nl_tabs 2)) = Inr t'"
    by (auto split: prod.splits sum.splits)
  have "stays rmap t3 (set_last_tail t3 tr (nl_tabs 2))"
    by (rule stays_fields) (simp_all add: set_last_tail_fields)
  from stays_trans [OF make_child_stays [OF mk app]
      stays_trans [OF tc_loop_stays [OF tcl] stays_trans [OF this Cons.IH [OF rest]]]]
  show ?case .
qed

lemma apply_table_stays:
  assumes "apply_table rmap item t = Inr t'"
  shows "stays rmap t t'"
proof (cases "snd item")
  case Nil
  with assms show ?thesis by (simp add: apply_table_def stays_refl)
next
  case (Cons block0 rest)
  with assms obtain table t2 t3 where
    ins: "insert_table rmap block0 t = Inr (table, t2)"
    and trl: "tr_loop rmap table (XPath_children ''w:tr'' (fst item)) t2 = Inr t3"
    and t': "t' = set_last_tail t3 table (nl_tabs 1)"
    by (auto simp: apply_table_def split: sum.splits prod.splits)
  from ins obtain b t1 parent idx where
    mk: "make_element ''table'' (Some (nl_tabs 2)) t = (table, t1)"
    and ia: "insert_at t1 parent idx table = Inr t2"
    by (auto simp: insert_table_def split: option.splits prod.splits sum.splits)
  note m = make_element_fields [OF mk]
  have 1: "stays rmap t t2"
  proof -
    note f = insert_at_fields [OF ia]
    have a: "up (elems t2 x) = up (elems t x)" if "x < fresh t" for x
      using that by (simp add: f(3) m)
    have "x \<in> set (take idx ks) \<or> x \<in> set (drop idx ks)" if "x \<in> set ks"
      for ks :: "nat list" and x
      using that by (metis Un_iff append_take_drop_id set_append)
    then have b: "x \<in> set (kids (elems t2 a))"
      if "x < fresh t" "a < fresh t" "x \<in> set (kids (elems t a))" for x a
      using that by (auto simp: f(4) m)
    from a b show ?thesis by (simp add: stays_def f(1) m)
  qed
  have 2: "stays rmap t3 t'"
    unfolding t' by (rule stays_fields) (simp_all add: set_last_tail_fields)
  from stays_trans [OF 1 stays_trans [OF tr_loop_stays [OF trl] 2]] show ?thesis .
qed

lemma tables_loop_stays: "tables_loop rmap items t = Inr t' \<Longrightarrow> stays rmap t t'"
proof (induction items arbitrary: t)
  case Nil
  then show ?case by (simp add: stays_refl)
next
  case (Cons item items)
  from Cons.prems obtain t1 where
    a: "apply_table rmap item t = Inr t1" and r: "tables_loop rmap items t1 = Inr t'"
    by (auto split: sum.splits)
  from stays_trans [OF apply_table_stays [OF a] Cons.IH [OF r]] show ?case .
qed

lemma tables_loop_append:
  "tables_loop rmap (pre @ post) t = Inr t' \<Longrightarrow>
   \<exists>s. tables_loop rmap pre t = Inr s \<and> tables_loop rmap post s = Inr t'"
  by (induction pre arbitrary: t) (auto split: sum.splits)

lemma table_reached:
  assumes inv0: "blocks_inv f0 rmap t"
    and run: "tables_loop rmap (pre @ (tbl, blocks) # post) t = Inr t'"
    and ne: "blocks \<noteq> []"
  shows "\<exists>s table s2 b parent idx.
           tables_loop rmap pre t = Inr s
         \<and> insert_table rmap (hd blocks) s = Inr (table, s2)
         \<and> rmap (hd blocks) = Some b \<and> up (elems s b) = Some parent
         \<and> position (kids (elems s parent)) b = Some idx
         \<and> kids (elems s2 parent) =
             take idx (kids (elems s parent)) @ [table] @ drop idx (kids (elems s parent))
         \<and> table_shape t' table tbl
         \<and> up (elems t' table) = Some parent \<and> table \<in> set (kids (elems t' parent))"
proof -
  from tables_loop_append [OF run] obtain s where
    pre: "tables_loop rmap pre t = Inr s"
    and rest: "tables_loop rmap ((tbl, blocks) # post) s = Inr t'"
    by blast
  from rest obtain s1 where
    a: "apply_table rmap (tbl, blocks) s = Inr s1" and post: "tables_loop rmap post s1 = Inr t'"
    by (auto split: sum.splits)
  from tables_loop_made [OF inv0 pre] have inv: "blocks_inv f0 rmap s" by simp
  from ne a obtain table s2 s3 where
    ins: "insert_table rmap (hd blocks) s = Inr (table, s2)"
    and trl: "tr_loop rmap table (XPath_children ''w:tr'' tbl) s2 = Inr s3"
    and s1: "s1 = set_last_tail s3 table (nl_tabs 1)"
    by (cases blocks) (auto simp: apply_table_def split: sum.splits prod.splits)
  note i = insert_table_position [OF inv ins]
  from i(7) obtain b parent idx where
    p: "rmap (hd blocks) = Some b" "up (elems s b) = Some parent"
       "position (kids (elems s parent)) b = Some idx"
       "kids (elems s2 parent) =
          take idx (kids (elems s parent)) @ [table] @ drop idx (kids (elems s parent))"
       "up (elems s2 table) = Some parent"
    by blast
  from inv have i0: "f0 \<le> fresh s"
    and i1: "\<And>x. x \<in> ran rmap \<Longrightarrow> x < f0"
    and i2: "\<And>x y. x \<in> ran rmap \<Longrightarrow> up (elems s x) = Some y \<Longrightarrow> y < fresh s"
    by (auto simp: blocks_inv_def)
  from p(1) have "b \<in> ran rmap" by (auto simp: ran_def)
  from i2 [OF this p(2)] have par: "parent < fresh s2" using i(2) by simp
  have tb: "table < fresh s2" "table \<notin> ran rmap"
    using i(1,2) i0 i1 [of table] by auto
  have mem: "table \<in> set (kids (elems s2 parent))" by (simp add: p(4))
  note ap = apply_table_made [OF inv a]
  from ap(4) [OF ne] have "table_made f0 s1 table tbl" using i(1) by simp
  from table_made_steady [OF this] tables_loop_made [OF ap(1) post]
  have "table_made f0 t' table tbl" by simp
  then have shape: "table_shape t' table tbl" by (rule table_made_shape)
  have "stays rmap s3 s1"
    unfolding s1 by (rule stays_fields) (simp_all add: set_last_tail_fields)
  from stays_trans [OF tr_loop_stays [OF trl] stays_trans [OF this tables_loop_stays [OF post]]]
  have "stays rmap s2 t'" .
  with tb par mem p(5) have "up (elems t' table) = Some parent"
    "table \<in> set (kids (elems t' parent))"
    by (auto simp: stays_def)
  with pre ins p shape show ?thesis by blast
qed

text \<open>
  C3.  When \<^verbatim>\<open>apply_markup\<close> returns on a tree that holds the blocks of the object
  map: the table elements it has made are, in order, one for each registered table
  with a non-empty block list, each with one row container for every \<^verbatim>\<open>w:tr\<close> child
  of its table elems and in each row container one cell container for every \<^verbatim>\<open>w:tc\<close>
  child of the row, in document order; no other element is made, so that a table
  without blocks gives no element at all; and when the loop reaches a table with
  blocks, its table element is inserted among the children of the parent of its first
  block at the index of that block, where it is still a child at the end.
\<close>

theorem apply_markup_tables:
  assumes "allocated object_map t" and "apply_markup self object_map t = Inr t'"
  shows "list_all2 (table_shape t') (made_tables (fresh t) t') (contributing (iteritems self))
     \<and> fresh t' = fresh t + sum_list (map table_size (contributing (iteritems self)))
     \<and> (\<forall>pre tbl blocks post.
           iteritems self = pre @ (tbl, blocks) # post \<and> blocks \<noteq> [] \<longrightarrow>
           (\<exists>s table s2 b parent idx.
               tables_loop (rmap_of object_map) pre t = Inr s
             \<and> insert_table (rmap_of object_map) (hd blocks) s = Inr (table, s2)
             \<and> rmap_of object_map (hd blocks) = Some b \<and> up (elems s b) = Some parent
             \<and> position (kids (elems s parent)) b = Some idx
             \<and> kids (elems s2 parent) =
                 take idx (kids (elems s parent)) @ [table] @ drop idx (kids (elems s parent))
             \<and> table_shape t' table tbl
             \<and> up (elems t' table) = Some parent \<and> table \<in> set (kids (elems t' parent))))"
proof -
  let ?rmap = "rmap_of object_map"
  from assms(2) have run: "tables_loop ?rmap (iteritems self) t = Inr t'"
    by (simp add: apply_markup_def)
  note inv = allocated_inv [OF assms(1)]
  from tables_loop_made [OF inv run] have
    cnt: "fresh t' = fresh t + sum_list (map table_size (contributing (iteritems self)))"
    and made: "list_all2 (table_made (fresh t) t') (made_tables (fresh t) t')
                 (contributing (iteritems self))"
    by auto
  have 1: "list_all2 (table_shape t') (made_tables (fresh t) t') (contributing (iteritems self))"
    using made by (rule list_all2_mono) (rule table_made_shape)
  have 3: "\<exists>s table s2 b parent idx.
               tables_loop ?rmap pre t = Inr s
             \<and> insert_table ?rmap (hd blocks) s = Inr (table, s2)
             \<and> ?rmap (hd blocks) = Some b \<and> up (elems s b) = Some parent
             \<and> position (kids (elems s parent)) b = Some idx
             \<and> kids (elems s2 parent) =
                 take idx (kids (elems s parent)) @ [table] @ drop idx (kids (elems s parent))
             \<and> table_shape t' table tbl
             \<and> up (elems t' table) = Some parent \<and> table \<in> set (kids (elems t' parent))"
    if "iteritems self = pre @ (tbl, blocks) # post \<and> blocks \<noteq> []" for pre tbl blocks post
    using table_reached [OF inv, of pre tbl blocks post t'] run that by simp
  from 1 cnt 3 show ?thesis by blast
qed

lemmas tree_example_defs =
  example_p0_def example_p1_def example_p2_def example_tbl_def example_tbl_empty_def
  example_tables_def example_element_def example_tree_def example_object_map_def

lemmas tree_defs =
  apply_markup_def iteritems_def rmap_of_def apply_table_def insert_table_def
  make_element_def getparent_def index_def insert_at_def is_ancestor_or_same_def unlink_def
  link_def append_def set_tail_def set_last_tail_def nl_tabs_def

theorem apply_markup_tables_witness:
  "allocated example_object_map example_tree
   \<and> (\<exists>t'. apply_markup example_tables example_object_map example_tree = Inr t'
         \<and> fresh t' = 10 \<and> made_tables 6 t' = [6] \<and> table_shape t' 6 example_tbl
         \<and> up (elems t' 6) = Some 2
         \<and> kids (elems t' 2) = [3, 6] \<and> kids (elems t' 6) = [7]
         \<and> kids (elems t' 7) = [8, 9] \<and> kids (elems t' 8) = [4] \<and> kids (elems t' 9) = [5])"
proof -
  have a: "allocated example_object_map example_tree"
    by (simp add: allocated_def tree_example_defs)
  have "\<exists>t'. apply_markup example_tables example_object_map example_tree = Inr t'
         \<and> fresh t' = 10 \<and> up (elems t' 6) = Some 2
         \<and> etag (elems t' 6) = ''table'' \<and> etag (elems t' 7) = ''tr''
         \<and> etag (elems t' 8) = ''td'' \<and> etag (elems t' 9) = ''td''
         \<and> kids (elems t' 2) = [3, 6] \<and> kids (elems t' 6) = [7]
         \<and> kids (elems t' 7) = [8, 9] \<and> kids (elems t' 8) = [4] \<and> kids (elems t' 9) = [5]"
    by (simp add: tree_example_defs tree_defs xml_query_defs eval_nat_numeral)
  then obtain t' where
    run: "apply_markup example_tables example_object_map example_tree = Inr t'"
    and f: "fresh t' = 10" and u: "up (elems t' 6) = Some 2"
    and g: "etag (elems t' 6) = ''table''" "etag (elems t' 7) = ''tr''"
       "etag (elems t' 8) = ''td''" "etag (elems t' 9) = ''td''"
    and k: "kids (elems t' 2) = [3, 6]" "kids (elems t' 6) = [7]" "kids (elems t' 7) = [8, 9]"
       "kids (elems t' 8) = [4]" "kids (elems t' 9) = [5]"
    by blast
  have "[6..<10] = [6, 7, 8, 9::nat]" by (simp add: upt_conv_Cons)
  then have m: "made_tables 6 t' = [6]"
    by (simp add: made_tables_def f g)
  have c: "contributing (iteritems example_tables) = [example_tbl]"
    by (simp add: contributing_def iteritems_def example_tables_def)
  have f0: "fresh example_tree = 6" by (simp add: example_tree_def)
  from apply_markup_tables [OF a run]
  have "list_all2 (table_shape t') (made_tables (fresh example_tree) t')
          (contributing (iteritems example_tables))"
    by (rule conjunct1)
  then have "table_shape t' 6 example_tbl"
    unfolding c f0 m by simp
  with a run f m u k show ?thesis by blast
qed

end
